theory Spec2Isabelle
  imports Main "HOL-Library.Sublist"
begin

section \<open>Data model of package writer\<close>

text \<open>
  Go's \<^verbatim>\<open>byte\<close> is an 8-bit value and a Go \<^verbatim>\<open>string\<close> is an arbitrary sequence of
  bytes, so both \<^verbatim>\<open>[]byte\<close> and \<^verbatim>\<open>string\<close> are lists of 8-bit characters here.
\<close>

type_synonym byte = char

abbreviation quote :: byte where "quote \<equiv> CHR 0x22"
abbreviation backslash :: byte where "backslash \<equiv> CHR 0x5C"

text \<open>
  The error values that travel through the package: \<^verbatim>\<open>ErrDuplicateKey\<close>, the
  \<^verbatim>\<open>fmt.Errorf("unexpected key: %s", key)\<close> of \<^verbatim>\<open>streamValue\<close>, the syntax error of
  \<^verbatim>\<open>json.Unmarshal\<close>, the run-time panic of a slice expression out of range, and any
  other error value (of the sink, of a callback, of \<^verbatim>\<open>json.Marshal\<close>), named by its text.
\<close>

datatype error =
    ErrDuplicateKey
  | ErrUnexpectedKey string
  | ErrSyntax
  | PanicSliceBounds
  | ErrOther string

text \<open>
  \<^verbatim>\<open>streamPrefix = `\<backslash>` + U+1F38F\<close> and \<^verbatim>\<open>streamJSONPrefix = `"\<backslash>\<backslash>` + U+1F38F\<close>, as the
  bytes of their UTF-8 encoding (the carp streamer is F0 9F 8E 8F).
\<close>

definition streamPrefix :: "byte list" where
  "streamPrefix = [backslash, CHR 0xF0, CHR 0x9F, CHR 0x8E, CHR 0x8F]"

definition streamJSONPrefix :: "byte list" where
  "streamJSONPrefix = [quote, backslash, backslash, CHR 0xF0, CHR 0x9F, CHR 0x8E, CHR 0x8F]"

datatype streamState = stateUndetermined | stateValue | stateNotValue

subsection \<open>The sink: an \<^verbatim>\<open>io.Writer\<close>\<close>

text \<open>
  The sink is any \<^verbatim>\<open>io.Writer\<close>. It is modelled by the bytes it has accepted so far and a
  policy that decides, from those bytes and the slice offered, how many bytes of the
  slice it accepts and which error it returns. The count returned never exceeds the
  length of the slice, as the contract of \<^verbatim>\<open>io.Writer\<close> demands.
\<close>

record io_Writer =
  sunk :: "byte list"
  policy :: "byte list \<Rightarrow> byte list \<Rightarrow> nat \<times> error option"

definition io_Write :: "io_Writer \<Rightarrow> byte list \<Rightarrow> io_Writer \<times> nat \<times> error option" where
  "io_Write s p =
     (case policy s (sunk s) p of
        (k, err) \<Rightarrow> (s\<lparr>sunk := sunk s @ take k p\<rparr>, min k (length p), err))"

text \<open>A sink that accepts every slice whole and never fails (a \<^verbatim>\<open>bytes.Buffer\<close>).\<close>

definition reliable :: "io_Writer \<Rightarrow> bool" where
  "reliable s \<longleftrightarrow> (\<forall>h p. policy s h p = (length p, None))"

definition buffer_sink :: io_Writer where
  "buffer_sink = \<lparr>sunk = [], policy = (\<lambda>h p. (length p, None))\<rparr>"


subsection \<open>Callbacks\<close>

text \<open>
  \<^verbatim>\<open>type ValueFunc func(w io.Writer) error\<close>. All a callback can do with the sink is to call
  its \<^verbatim>\<open>Write\<close>, look at the result and go on, until it returns its own error or nil. So a
  callback is the tree of its interactions with the sink.
\<close>

datatype ValueFunc =
    VReturn "error option"
  | VWrite "byte list" "nat \<times> error option \<Rightarrow> ValueFunc"

text \<open>
  \<^verbatim>\<open>type ArrayValueFunc func(w ElementWriter) error\<close>: the callback calls \<^verbatim>\<open>WriteElement\<close>
  on elements of its choice, sees the error of each call, and returns.
\<close>

datatype 'e ArrayValueFunc =
    AReturn "error option"
  | AWriteElement 'e "error option \<Rightarrow> 'e ArrayValueFunc"

text \<open>
  Field \<^verbatim>\<open>f interface{}\<close> of \<^verbatim>\<open>Value\<close> holds a \<^verbatim>\<open>ValueFunc\<close> or an \<^verbatim>\<open>ArrayValueFunc\<close>: the
  four exported constructors store nothing else.
\<close>

datatype 'e Func = IsValueFunc ValueFunc | IsArrayValueFunc "'e ArrayValueFunc"

record 'e Value =
  Value_key :: string
  Value_f :: "'e Func"

text \<open>
  \<^verbatim>\<open>type Writer struct\<close>. The mutex is left out: the model is sequential.
\<close>

record 'e Writer =
  Writer_w :: io_Writer
  Writer_m :: "string \<rightharpoonup> 'e Value"
  onString :: bool
  escaping :: bool
  streamState :: streamState
  stringBuf :: "byte list"

record elementWriter =
  ew_w :: io_Writer
  following :: bool

definition New :: "io_Writer \<Rightarrow> 'e Writer" where
  "New s = \<lparr>Writer_w = s, Writer_m = Map.empty, onString = False, escaping = False,
            streamState = stateUndetermined, stringBuf = []\<rparr>"

definition newValue :: "'e Writer \<Rightarrow> string \<Rightarrow> 'e Func \<Rightarrow> 'e Writer \<times> (error + 'e Value)" where
  "newValue w k fn =
     (case Writer_m w k of
        Some _ \<Rightarrow> (w, Inl ErrDuplicateKey)
      | None \<Rightarrow>
          (let v = \<lparr>Value_key = k, Value_f = fn\<rparr>
           in (w\<lparr>Writer_m := (Writer_m w)(k \<mapsto> v)\<rparr>, Inr v)))"

definition NewValue :: "'e Writer \<Rightarrow> string \<Rightarrow> ValueFunc \<Rightarrow> 'e Writer \<times> (error + 'e Value)" where
  "NewValue w k fn = newValue w k (IsValueFunc fn)"

definition NewArrayValue ::
  "'e Writer \<Rightarrow> string \<Rightarrow> 'e ArrayValueFunc \<Rightarrow> 'e Writer \<times> (error + 'e Value)" where
  "NewArrayValue w k fn = newValue w k (IsArrayValueFunc fn)"

section \<open>The string codec of \<^verbatim>\<open>encoding/json\<close>\<close>

text \<open>
  \<^verbatim>\<open>Value.MarshalJSON\<close> calls \<^verbatim>\<open>json.Marshal\<close> on a string and \<^verbatim>\<open>Writer.Write\<close> calls
  \<^verbatim>\<open>json.Unmarshal\<close> into a string. Both belong to Go's standard library, not to this
  package; they are modelled here after the library's \<^verbatim>\<open>appendString\<close> (with HTML
  escaping, the default of \<^verbatim>\<open>json.Marshal\<close>), its scanner and its \<^verbatim>\<open>unquote\<close>, together with
  \<^verbatim>\<open>utf8.DecodeRune\<close>, \<^verbatim>\<open>utf8.EncodeRune\<close> and \<^verbatim>\<open>utf16.DecodeRune\<close>. Runes are natural
  numbers.
\<close>

definition RuneError :: nat where
  "RuneError = 0xFFFD"

text \<open>
  \<^verbatim>\<open>utf8.DecodeRune\<close>: the rune at the head of the bytes and its width;
  \<open>(RuneError, 1)\<close> for a malformed or truncated encoding, \<open>(RuneError, 0)\<close> for no bytes.
\<close>

definition continuation :: "byte \<Rightarrow> bool" where
  "continuation c \<longleftrightarrow> 0x80 \<le> (of_char c :: nat) \<and> (of_char c :: nat) \<le> 0xBF"

fun DecodeRune :: "byte list \<Rightarrow> nat \<times> nat" where
  "DecodeRune [] = (RuneError, 0)"
| "DecodeRune (c0 # cs) =
     (let p0 = (of_char c0 :: nat) in
      if p0 < 0x80 then (p0, 1)
      else if p0 < 0xC2 \<or> 0xF4 < p0 then (RuneError, 1)
      else
        (let sz = (if p0 < 0xE0 then 2 else if p0 < 0xF0 then 3 else (4::nat));
             lo = (if p0 = 0xE0 then 0xA0 else if p0 = 0xF0 then 0x90 else (0x80::nat));
             hi = (if p0 = 0xED then 0x9F else if p0 = 0xF4 then 0x8F else (0xBF::nat))
         in case cs of
              [] \<Rightarrow> (RuneError, 1)
            | c1 # cs1 \<Rightarrow>
                (let b1 = (of_char c1 :: nat) in
                 if b1 < lo \<or> hi < b1 then (RuneError, 1)
                 else if sz = 2 then ((p0 mod 32) * 64 + b1 mod 64, 2)
                 else
                   (case cs1 of
                      [] \<Rightarrow> (RuneError, 1)
                    | c2 # cs2 \<Rightarrow>
                        (let b2 = (of_char c2 :: nat) in
                         if \<not> continuation c2 then (RuneError, 1)
                         else if sz = 3
                         then ((p0 mod 16) * 4096 + (b1 mod 64) * 64 + b2 mod 64, 3)
                         else
                           (case cs2 of
                              [] \<Rightarrow> (RuneError, 1)
                            | c3 # _ \<Rightarrow>
                                (let b3 = (of_char c3 :: nat) in
                                 if \<not> continuation c3 then (RuneError, 1)
                                 else ((p0 mod 8) * 262144 + (b1 mod 64) * 4096
                                        + (b2 mod 64) * 64 + b3 mod 64, 4))))))))"

text \<open>\<^verbatim>\<open>utf8.EncodeRune\<close>: a surrogate or a value beyond U+10FFFF is written as U+FFFD.\<close>

definition EncodeRune :: "nat \<Rightarrow> byte list" where
  "EncodeRune r =
     (if r \<le> 0x7F then [char_of r]
      else if r \<le> 0x7FF then [char_of (0xC0 + r div 64), char_of (0x80 + r mod 64)]
      else if 0x10FFFF < r \<or> (0xD800 \<le> r \<and> r \<le> 0xDFFF)
      then [CHR 0xEF, CHR 0xBF, CHR 0xBD]
      else if r \<le> 0xFFFF
      then [char_of (0xE0 + r div 4096), char_of (0x80 + (r div 64) mod 64),
            char_of (0x80 + r mod 64)]
      else [char_of (0xF0 + r div 262144), char_of (0x80 + (r div 4096) mod 64),
            char_of (0x80 + (r div 64) mod 64), char_of (0x80 + r mod 64)])"

text \<open>The table \<^verbatim>\<open>htmlSafeSet\<close>, for a byte below \<^verbatim>\<open>utf8.RuneSelf\<close>.\<close>

definition htmlSafe :: "byte \<Rightarrow> bool" where
  "htmlSafe c \<longleftrightarrow>
     0x20 \<le> (of_char c :: nat) \<and> c \<noteq> quote \<and> c \<noteq> backslash
       \<and> c \<noteq> CHR ''<'' \<and> c \<noteq> CHR ''>'' \<and> c \<noteq> CHR ''&''"

definition hex :: "nat \<Rightarrow> byte" where
  "hex n = ''0123456789abcdef'' ! n"

text \<open>
  The loop of \<^verbatim>\<open>appendString\<close>, on the bytes that are left: a safe ASCII byte is copied, the
  others are escaped; a malformed byte becomes the text \<^verbatim>\<open>\<backslash>ufffd\<close>; U+2028 and U+2029 are
  escaped; every other rune is copied. Backspace and form feed are written \<^verbatim>\<open>\<backslash>b\<close> and
  \<^verbatim>\<open>\<backslash>f\<close>, as Go does since version 1.22; before, it wrote \<^verbatim>\<open>\<backslash>u0008\<close> and \<^verbatim>\<open>\<backslash>u000c\<close>, which
  \<^verbatim>\<open>unquote\<close> reads to the same two bytes.
\<close>

fun appendString :: "byte list \<Rightarrow> byte list" where
  "appendString [] = []"
| "appendString (c # cs) =
     (let b = (of_char c :: nat) in
      if b < 0x80 then
        (if htmlSafe c then [c]
         else if c = backslash \<or> c = quote then [backslash, c]
         else if b = 0x08 then [backslash, CHR ''b'']
         else if b = 0x0C then [backslash, CHR ''f'']
         else if b = 0x0A then [backslash, CHR ''n'']
         else if b = 0x0D then [backslash, CHR ''r'']
         else if b = 0x09 then [backslash, CHR ''t'']
         else [backslash, CHR ''u'', CHR ''0'', CHR ''0'', hex (b div 16), hex (b mod 16)])
        @ appendString cs
      else
        (case DecodeRune (c # cs) of
           (r, width) \<Rightarrow>
             if r = RuneError \<and> width = 1
             then [backslash, CHR ''u'', CHR ''f'', CHR ''f'', CHR ''f'', CHR ''d'']
                  @ appendString cs
             else if r = 0x2028 \<or> r = 0x2029
             then [backslash, CHR ''u'', CHR ''2'', CHR ''0'', CHR ''2'', hex (r mod 16)]
                  @ appendString (drop (width - 1) cs)
             else c # take (width - 1) cs @ appendString (drop (width - 1) cs)))"

text \<open>\<^verbatim>\<open>json.Marshal\<close> of a string: it cannot fail, the error is always nil.\<close>

definition json_Marshal_string :: "string \<Rightarrow> byte list" where
  "json_Marshal_string s = quote # appendString s @ [quote]"

definition hexval :: "byte \<Rightarrow> nat option" where
  "hexval c =
     (let n = (of_char c :: nat) in
      if 0x30 \<le> n \<and> n \<le> 0x39 then Some (n - 0x30)
      else if 0x61 \<le> n \<and> n \<le> 0x66 then Some (n - 0x61 + 10)
      else if 0x41 \<le> n \<and> n \<le> 0x46 then Some (n - 0x41 + 10)
      else None)"

text \<open>\<^verbatim>\<open>getu4\<close>: the number written by \<^verbatim>\<open>\<backslash>uXXXX\<close> at the head of the bytes, if one is there.\<close>

fun getu4 :: "byte list \<Rightarrow> nat option" where
  "getu4 (e # u # a # b # c # d # _) =
     (if e = backslash \<and> u = CHR ''u'' then
        (case (hexval a, hexval b, hexval c, hexval d) of
           (Some x, Some y, Some z, Some t) \<Rightarrow> Some (((x * 16 + y) * 16 + z) * 16 + t)
         | _ \<Rightarrow> None)
      else None)"
| "getu4 _ = None"

text \<open>
  The bytes after the opening quote of a literal, decoded up to the closing quote, which
  must be the last byte. \<open>None\<close> is the syntax error of the scanner (\<^verbatim>\<open>checkValid\<close>): the
  input ends inside the string, a control character stands in it, an escape is not one
  of JSON's, or bytes follow the closing quote. Otherwise the result is what \<^verbatim>\<open>unquote\<close>
  returns.
\<close>

fun unquote :: "byte list \<Rightarrow> byte list option" where
  "unquote [] = None"
| "unquote (c # cs) =
     (if c = quote then (if cs = [] then Some [] else None)
      else if c = backslash then
        (case cs of
           [] \<Rightarrow> None
         | d # ds \<Rightarrow>
             if d = quote \<or> d = backslash \<or> d = CHR ''/'' then map_option ((#) d) (unquote ds)
             else if d = CHR ''b'' then map_option ((#) (CHR 0x08)) (unquote ds)
             else if d = CHR ''f'' then map_option ((#) (CHR 0x0C)) (unquote ds)
             else if d = CHR ''n'' then map_option ((#) (CHR 0x0A)) (unquote ds)
             else if d = CHR ''r'' then map_option ((#) (CHR 0x0D)) (unquote ds)
             else if d = CHR ''t'' then map_option ((#) (CHR 0x09)) (unquote ds)
             else if d = CHR ''u'' then
               (case getu4 (c # cs) of
                  None \<Rightarrow> None
                | Some rr \<Rightarrow>
                    if 0xD800 \<le> rr \<and> rr < 0xE000 then
                      (case getu4 (drop 4 ds) of
                         None \<Rightarrow> map_option ((@) (EncodeRune RuneError)) (unquote (drop 4 ds))
                       | Some rr1 \<Rightarrow>
                           if rr < 0xDC00 \<and> 0xDC00 \<le> rr1 \<and> rr1 < 0xE000
                           then map_option
                                  ((@) (EncodeRune ((rr - 0xD800) * 1024 + (rr1 - 0xDC00) + 0x10000)))
                                  (unquote (drop 6 (drop 4 ds)))
                           else map_option ((@) (EncodeRune RuneError)) (unquote (drop 4 ds)))
                    else map_option ((@) (EncodeRune rr)) (unquote (drop 4 ds)))
             else None)
      else if (of_char c :: nat) < 0x20 then None
      else if (of_char c :: nat) < 0x80 then map_option ((#) c) (unquote cs)
      else
        (case DecodeRune (c # cs) of
           (rr, width) \<Rightarrow> map_option ((@) (EncodeRune rr)) (unquote (drop (width - 1) cs))))"

text \<open>
  \<^verbatim>\<open>json.Unmarshal(data, &s)\<close> for a string \<^verbatim>\<open>s\<close>, on data whose first byte is a quote: all
  that \<^verbatim>\<open>Write\<close> passes, since \<^verbatim>\<open>stringBuf\<close> is reset to the opening quote when a string
  starts. Data that start otherwise are not modelled and are reported as a syntax error.
\<close>

definition json_Unmarshal_string :: "byte list \<Rightarrow> error + string" where
  "json_Unmarshal_string data =
     (case data of
        [] \<Rightarrow> Inl ErrSyntax
      | c # cs \<Rightarrow>
          if c = quote then (case unquote cs of None \<Rightarrow> Inl ErrSyntax | Some s \<Rightarrow> Inr s)
          else Inl ErrSyntax)"

text \<open>\<^verbatim>\<open>func (v *Value) MarshalJSON() ([]byte, error)\<close>; the error is always nil.\<close>

definition MarshalJSON :: "'e Value \<Rightarrow> byte list" where
  "MarshalJSON v = json_Marshal_string (streamPrefix @ Value_key v)"

section \<open>The element writer and the dispatcher\<close>

text \<open>
  \<^verbatim>\<open>json.Marshal(e)\<close> for an element \<^verbatim>\<open>e interface{}\<close> is the generic encoder of the standard
  library; it is the parameter \<open>marshal\<close> of everything that follows.
\<close>

text \<open>Running a \<^verbatim>\<open>ValueFunc\<close> on the sink: the sink after it, and what it returns.\<close>

primrec run_ValueFunc :: "ValueFunc \<Rightarrow> io_Writer \<Rightarrow> io_Writer \<times> error option" where
  "run_ValueFunc (VReturn r) = (\<lambda>s. (s, r))"
| "run_ValueFunc (VWrite p k) =
     (\<lambda>s. case io_Write s p of (s', n, err) \<Rightarrow> run_ValueFunc (k (n, err)) s')"

text \<open>\<^verbatim>\<open>func (ew *elementWriter) WriteElement(e interface{}) error\<close>\<close>

definition WriteElement ::
  "('e \<Rightarrow> error + byte list) \<Rightarrow> elementWriter \<Rightarrow> 'e \<Rightarrow> elementWriter \<times> error option" where
  "WriteElement marshal ew e =
     (case (if following ew
            then (case io_Write (ew_w ew) [CHR '',''] of (s, _, err) \<Rightarrow> (ew\<lparr>ew_w := s\<rparr>, err))
            else (ew\<lparr>following := True\<rparr>, None)) of
        (ew1, Some err) \<Rightarrow> (ew1, Some err)
      | (ew1, None) \<Rightarrow>
          (case marshal e of
             Inl err \<Rightarrow> (ew1, Some err)
           | Inr jsn \<Rightarrow>
               (case io_Write (ew_w ew1) jsn of (s, _, err) \<Rightarrow> (ew1\<lparr>ew_w := s\<rparr>, err))))"

text \<open>Running an \<^verbatim>\<open>ArrayValueFunc\<close> on an element writer.\<close>

primrec run_ArrayValueFunc ::
  "('e \<Rightarrow> error + byte list) \<Rightarrow> 'e ArrayValueFunc \<Rightarrow> elementWriter
     \<Rightarrow> elementWriter \<times> error option" where
  "run_ArrayValueFunc marshal (AReturn r) = (\<lambda>ew. (ew, r))"
| "run_ArrayValueFunc marshal (AWriteElement e k) =
     (\<lambda>ew. case WriteElement marshal ew e of
             (ew', err) \<Rightarrow> run_ArrayValueFunc marshal (k err) ew')"

text \<open>\<^verbatim>\<open>func (w *Writer) streamValue(key string) error\<close>\<close>

definition streamValue ::
  "('e \<Rightarrow> error + byte list) \<Rightarrow> 'e Writer \<Rightarrow> string \<Rightarrow> 'e Writer \<times> error option" where
  "streamValue marshal w k =
     (case Writer_m w k of
        None \<Rightarrow> (w, Some (ErrUnexpectedKey k))
      | Some v \<Rightarrow>
          (case Value_f v of
             IsValueFunc fn \<Rightarrow>
               (case run_ValueFunc fn (Writer_w w) of (s, err) \<Rightarrow> (w\<lparr>Writer_w := s\<rparr>, err))
           | IsArrayValueFunc fn \<Rightarrow>
               (case io_Write (Writer_w w) ''['' of
                  (s1, _, Some err) \<Rightarrow> (w\<lparr>Writer_w := s1\<rparr>, Some err)
                | (s1, _, None) \<Rightarrow>
                    (case run_ArrayValueFunc marshal fn \<lparr>ew_w = s1, following = False\<rparr> of
                       (ew, Some err) \<Rightarrow> (w\<lparr>Writer_w := ew_w ew\<rparr>, Some err)
                     | (ew, None) \<Rightarrow>
                         (case io_Write (ew_w ew) '']'' of
                            (s2, _, err) \<Rightarrow> (w\<lparr>Writer_w := s2\<rparr>, err))))))"

section \<open>The interceptor: \<^verbatim>\<open>Writer.Write\<close>\<close>

text \<open>
  The body of the loop of \<^verbatim>\<open>Write\<close> is cut into its four parts. Each returns the writer,
  the count \<open>n\<close> and the error with which \<^verbatim>\<open>Write\<close> returns at once, if there is one.
\<close>

text \<open>Lines 125 to 131: the escape flag and the end of the string.\<close>

definition track_escape :: "'e Writer \<Rightarrow> byte \<Rightarrow> 'e Writer" where
  "track_escape w b =
     (if escaping w then w\<lparr>escaping := False\<rparr>
      else if b = backslash then w\<lparr>escaping := True\<rparr>
      else if b = quote then w\<lparr>onString := False\<rparr>
      else w)"

text \<open>Lines 133 to 157: the byte is written live, or buffered and the string classified.\<close>

definition keep_byte :: "'e Writer \<Rightarrow> byte \<Rightarrow> nat \<Rightarrow> 'e Writer \<times> nat \<times> error option" where
  "keep_byte w b n =
     (if streamState w = stateNotValue then
        (case io_Write (Writer_w w) [b] of (s, _, err) \<Rightarrow> (w\<lparr>Writer_w := s\<rparr>, n, err))
      else
        (let w1 = w\<lparr>stringBuf := stringBuf w @ [b]\<rparr> in
         if streamState w1 = stateUndetermined
            \<and> length streamJSONPrefix \<le> length (stringBuf w1)
         then
           (if prefix streamJSONPrefix (stringBuf w1)
            then (w1\<lparr>streamState := stateValue\<rparr>, n, None)
            else
              (let w2 = w1\<lparr>streamState := stateNotValue\<rparr> in
               case io_Write (Writer_w w2) (stringBuf w2) of
                 (s, nn, err) \<Rightarrow> (w2\<lparr>Writer_w := s\<rparr>, n + nn, err)))
         else (w1, n, None)))"

text \<open>
  Lines 159 to 180: the string has ended. \<^verbatim>\<open>s[len(streamPrefix):]\<close> panics when \<^verbatim>\<open>s\<close> is
  shorter than the prefix.
\<close>

definition finish_string ::
  "('e \<Rightarrow> error + byte list) \<Rightarrow> 'e Writer \<Rightarrow> nat \<Rightarrow> 'e Writer \<times> nat \<times> error option" where
  "finish_string marshal w n =
     (if streamState w = stateUndetermined then
        (case io_Write (Writer_w w) (stringBuf w) of
           (s, nn, err) \<Rightarrow> (w\<lparr>Writer_w := s\<rparr>, n + nn, err))
      else if streamState w = stateValue then
        (case json_Unmarshal_string (stringBuf w) of
           Inl err \<Rightarrow> (w, n, Some err)
         | Inr s \<Rightarrow>
             if length s < length streamPrefix then (w, n, Some PanicSliceBounds)
             else
               (case streamValue marshal w (drop (length streamPrefix) s) of
                  (w', err) \<Rightarrow> (w', n, err)))
      else (w, n, None))"

text \<open>Lines 186 to 200: a byte outside a string.\<close>

definition outside_byte :: "'e Writer \<Rightarrow> byte \<Rightarrow> nat \<Rightarrow> 'e Writer \<times> nat \<times> error option" where
  "outside_byte w b n =
     (if b = quote then
        (w\<lparr>onString := True, escaping := False, streamState := stateUndetermined,
           stringBuf := [quote]\<rparr>, n, None)
      else
        (case io_Write (Writer_w w) [b] of
           (s, _, Some err) \<Rightarrow> (w\<lparr>Writer_w := s\<rparr>, n, Some err)
         | (s, _, None) \<Rightarrow> (w\<lparr>Writer_w := s\<rparr>, n + 1, None)))"

text \<open>The body of \<^verbatim>\<open>for _, b := range p\<close>.\<close>

definition Write_byte ::
  "('e \<Rightarrow> error + byte list) \<Rightarrow> 'e Writer \<Rightarrow> byte \<Rightarrow> nat \<Rightarrow> 'e Writer \<times> nat \<times> error option" where
  "Write_byte marshal w b n =
     (if onString w then
        (case keep_byte (track_escape w b) b n of
           (w1, n1, Some err) \<Rightarrow> (w1, n1, Some err)
         | (w1, n1, None) \<Rightarrow>
             if \<not> onString w1 then finish_string marshal w1 n1 else (w1, n1, None))
      else outside_byte w b n)"

text \<open>The loop, from the count \<open>n\<close> reached so far; it stops at the first error.\<close>

fun Write_loop ::
  "('e \<Rightarrow> error + byte list) \<Rightarrow> 'e Writer \<Rightarrow> byte list \<Rightarrow> nat \<Rightarrow> 'e Writer \<times> nat \<times> error option" where
  "Write_loop marshal w [] n = (w, n, None)"
| "Write_loop marshal w (b # bs) n =
     (case Write_byte marshal w b n of
        (w', n', Some err) \<Rightarrow> (w', n', Some err)
      | (w', n', None) \<Rightarrow> Write_loop marshal w' bs n')"

text \<open>\<^verbatim>\<open>func (w *Writer) Write(p []byte) (n int, err error)\<close>\<close>

definition Write ::
  "('e \<Rightarrow> error + byte list) \<Rightarrow> 'e Writer \<Rightarrow> byte list \<Rightarrow> 'e Writer \<times> nat \<times> error option" where
  "Write marshal w p = Write_loop marshal w p 0"

text \<open>
  A caller that hands a sequence of slices to \<^verbatim>\<open>Write\<close>, one call after the other, and stops
  at the first error, as \<^verbatim>\<open>json.Encoder\<close> does. The count is the sum of the counts returned.
\<close>

fun Write_chunks ::
  "('e \<Rightarrow> error + byte list) \<Rightarrow> 'e Writer \<Rightarrow> byte list list \<Rightarrow> 'e Writer \<times> nat \<times> error option" where
  "Write_chunks marshal w [] = (w, 0, None)"
| "Write_chunks marshal w (p # ps) =
     (case Write marshal w p of
        (w', n, Some err) \<Rightarrow> (w', n, Some err)
      | (w', n, None) \<Rightarrow>
          (case Write_chunks marshal w' ps of (w'', n', err) \<Rightarrow> (w'', n + n', err)))"

section \<open>Notions of the specification\<close>

subsection \<open>String literals and markers\<close>

text \<open>
  The string literals of a byte sequence, read as the specification reads them: a quote
  outside a string opens a literal, a backslash inside escapes exactly the next byte, an
  unescaped quote closes the literal. The first argument is the literal that is open (if
  one is), the second says whether the next byte is escaped. A literal that the input
  leaves open is listed as well.
\<close>

fun string_literals_from :: "byte list option \<Rightarrow> bool \<Rightarrow> byte list \<Rightarrow> byte list list" where
  "string_literals_from None esc [] = []"
| "string_literals_from (Some l) esc [] = [l]"
| "string_literals_from None esc (c # cs) =
     (if c = quote then string_literals_from (Some [quote]) False cs
      else string_literals_from None False cs)"
| "string_literals_from (Some l) esc (c # cs) =
     (if esc then string_literals_from (Some (l @ [c])) False cs
      else if c = backslash then string_literals_from (Some (l @ [c])) True cs
      else if c = quote then (l @ [c]) # string_literals_from None False cs
      else string_literals_from (Some (l @ [c])) False cs)"

text \<open>The literals of a whole input, scanned from outside a string.\<close>

definition string_literals :: "byte list \<Rightarrow> byte list list" where
  "string_literals p = string_literals_from None False p"

text \<open>No string literal of the input begins with the escaped reserved prefix.\<close>

definition no_collision :: "byte list \<Rightarrow> bool" where
  "no_collision p \<longleftrightarrow> list_all (\<lambda>l. \<not> prefix streamJSONPrefix l) (string_literals p)"

text \<open>
  The content of a string literal, between its quotes: bytes other than quote and
  backslash, and escapes, each a backslash and the byte it escapes.
\<close>

fun escaped_content :: "byte list \<Rightarrow> bool" where
  "escaped_content [] = True"
| "escaped_content [c] = (c \<noteq> backslash \<and> c \<noteq> quote)"
| "escaped_content (c # d # cs) =
     (if c = backslash then escaped_content cs else c \<noteq> quote \<and> escaped_content (d # cs))"

text \<open>A complete string literal: a quote, content, a quote.\<close>

definition string_literal :: "byte list \<Rightarrow> bool" where
  "string_literal l \<longleftrightarrow>
     2 \<le> length l \<and> hd l = quote \<and> last l = quote \<and> escaped_content (butlast (tl l))"

text \<open>
  The marker literal of a key, as the interceptor recognizes it: a complete string
  literal that begins with the escaped prefix and that \<^verbatim>\<open>json.Unmarshal\<close> decodes to the
  prefix followed by the key.
\<close>

definition marker_literal :: "byte list \<Rightarrow> string \<Rightarrow> bool" where
  "marker_literal lit k \<longleftrightarrow>
     string_literal lit \<and> prefix streamJSONPrefix lit
       \<and> json_Unmarshal_string lit = Inr (streamPrefix @ k)"

text \<open>
  Well-formed UTF-8, as \<^verbatim>\<open>utf8.Valid\<close> decides it: the bytes are a sequence of encodings
  that \<^verbatim>\<open>utf8.DecodeRune\<close> accepts.
\<close>

fun valid_utf8 :: "byte list \<Rightarrow> bool" where
  "valid_utf8 [] = True"
| "valid_utf8 (c # cs) =
     (case DecodeRune (c # cs) of
        (r, width) \<Rightarrow> \<not> (r = RuneError \<and> width = 1) \<and> valid_utf8 (drop (width - 1) cs))"

subsection \<open>What callbacks do on a sink that never fails\<close>

text \<open>
  What a \<^verbatim>\<open>ValueFunc\<close> writes and returns when every write of it succeeds in full, as on
  a sink that never fails.
\<close>

primrec written :: "ValueFunc \<Rightarrow> byte list" where
  "written (VReturn r) = []"
| "written (VWrite p k) = p @ written (k (length p, None))"

primrec returned :: "ValueFunc \<Rightarrow> error option" where
  "returned (VReturn r) = r"
| "returned (VWrite p k) = returned (k (length p, None))"

text \<open>
  What \<^verbatim>\<open>WriteElement\<close> answers on a sink that never fails: the error of \<^verbatim>\<open>json.Marshal\<close>, or
  nil. With these answers an \<^verbatim>\<open>ArrayValueFunc\<close> emits the elements \<open>emitted\<close> and returns
  \<open>areturned\<close>.
\<close>

definition element_reply :: "('e \<Rightarrow> error + byte list) \<Rightarrow> 'e \<Rightarrow> error option" where
  "element_reply marshal e = (case marshal e of Inl err \<Rightarrow> Some err | Inr _ \<Rightarrow> None)"

primrec emitted :: "('e \<Rightarrow> error + byte list) \<Rightarrow> 'e ArrayValueFunc \<Rightarrow> 'e list" where
  "emitted marshal (AReturn r) = []"
| "emitted marshal (AWriteElement e k) = e # emitted marshal (k (element_reply marshal e))"

primrec areturned :: "('e \<Rightarrow> error + byte list) \<Rightarrow> 'e ArrayValueFunc \<Rightarrow> error option" where
  "areturned marshal (AReturn r) = r"
| "areturned marshal (AWriteElement e k) = areturned marshal (k (element_reply marshal e))"

text \<open>The serialization of an element, and whether \<^verbatim>\<open>json.Marshal\<close> accepts it.\<close>

definition serialize :: "('e \<Rightarrow> error + byte list) \<Rightarrow> 'e \<Rightarrow> byte list" where
  "serialize marshal e = (case marshal e of Inl _ \<Rightarrow> [] | Inr jsn \<Rightarrow> jsn)"

definition marshals :: "('e \<Rightarrow> error + byte list) \<Rightarrow> 'e \<Rightarrow> bool" where
  "marshals marshal e = (case marshal e of Inl _ \<Rightarrow> False | Inr _ \<Rightarrow> True)"

text \<open>Serializations joined by single commas.\<close>

fun comma_join :: "byte list list \<Rightarrow> byte list" where
  "comma_join [] = []"
| "comma_join [x] = x"
| "comma_join (x # y # ys) = x @ CHR '','' # comma_join (y # ys)"

subsection \<open>The interceptor against the reading of the specification\<close>

text \<open>Where the same reading ends: the literal left open and the escape flag.\<close>

fun scan_end :: "byte list option \<Rightarrow> bool \<Rightarrow> byte list \<Rightarrow> byte list option \<times> bool" where
  "scan_end cur esc [] = (cur, esc)"
| "scan_end None esc (c # cs) =
     (if c = quote then scan_end (Some [quote]) False cs else scan_end None False cs)"
| "scan_end (Some l) esc (c # cs) =
     (if esc then scan_end (Some (l @ [c])) False cs
      else if c = backslash then scan_end (Some (l @ [c])) True cs
      else if c = quote then scan_end None False cs
      else scan_end (Some (l @ [c])) False cs)"

text \<open>
  What an input without markers leaves in the buffer: the literal it leaves open, while
  that literal is shorter than the escaped prefix.
\<close>

definition held_back :: "byte list \<Rightarrow> byte list" where
  "held_back p =
     (case fst (scan_end None False p) of
        None \<Rightarrow> []
      | Some l \<Rightarrow> if length l < length streamJSONPrefix then l else [])"

text \<open>The bytes the interceptor holds back: the buffer of a string not yet classified.\<close>

definition pending :: "'e Writer \<Rightarrow> byte list" where
  "pending w = (if onString w \<and> streamState w = stateUndetermined then stringBuf w else [])"

text \<open>
  The interceptor follows the reading of the specification on an input without markers:
  it is in a string exactly when a literal is open, with the same escape flag; a literal
  shorter than the escaped prefix is in the buffer, undetermined; a longer one has been
  classified as no marker.
\<close>

definition tracks :: "'e Writer \<Rightarrow> byte list option \<times> bool \<Rightarrow> bool" where
  "tracks w st \<longleftrightarrow>
     (case fst st of
        None \<Rightarrow> \<not> onString w
      | Some l \<Rightarrow>
          onString w \<and> escaping w = snd st \<and>
          (if length l < length streamJSONPrefix
           then streamState w = stateUndetermined \<and> stringBuf w = l
           else streamState w = stateNotValue))"

text \<open>The writer as \<^verbatim>\<open>streamValue\<close> finds it when the marker literal \<open>lit\<close> has ended.\<close>

definition dispatching :: "'e Writer \<Rightarrow> byte list \<Rightarrow> 'e Writer" where
  "dispatching w lit =
     w\<lparr>onString := False, escaping := False, streamState := stateValue, stringBuf := lit\<rparr>"

subsection \<open>Concrete writers, sinks and callbacks\<close>

text \<open>
  An encoder for the examples: the elements are \<^verbatim>\<open>json.RawMessage\<close> values, which
  \<^verbatim>\<open>json.Marshal\<close> writes as they are.
\<close>

definition raw_marshal :: "byte list \<Rightarrow> error + byte list" where
  "raw_marshal e = Inr e"

text \<open>
  The callbacks of the examples: one that writes a slice and returns the error of the
  write, and the loop of the tests, \<^verbatim>\<open>WriteElement\<close> on each element, stopping at an error.
\<close>

fun emit_all :: "'e list \<Rightarrow> 'e ArrayValueFunc" where
  "emit_all [] = AReturn None"
| "emit_all (e # es) =
     AWriteElement e (\<lambda>err. case err of Some x \<Rightarrow> AReturn (Some x) | None \<Rightarrow> emit_all es)"

definition write_once :: "byte list \<Rightarrow> ValueFunc" where
  "write_once p = VWrite p (\<lambda>r. VReturn (snd r))"

text \<open>
  The marker of a key as the encoder writes it (\<^verbatim>\<open>MarshalJSON\<close> reads the key only), a
  writer that knows two keys, and one that knows the empty key.
\<close>

definition marker :: "string \<Rightarrow> byte list" where
  "marker k = MarshalJSON (\<lparr>Value_key = k, Value_f = IsValueFunc (VReturn None)\<rparr> :: string Value)"

definition example_writer :: "string Writer" where
  "example_writer =
     fst (NewArrayValue
            (fst (NewValue (New buffer_sink) ''$.Values'' (write_once ''[1,2,3]'')))
            ''$.Numbers'' (emit_all [''0'', ''1'', ''2'']))"

definition empty_key_writer :: "string Writer" where
  "empty_key_writer = fst (NewArrayValue (New buffer_sink) [] (emit_all []))"








text \<open>
  A writer with the key \<^verbatim>\<open>"\<backslash>xff"\<close>, a Go string that is not UTF-8, and one that also knows the
  key U+FFFD.
\<close>

definition invalid_key_writer :: "string Writer" where
  "invalid_key_writer = fst (NewValue (New buffer_sink) [CHR 0xFF] (write_once ''[1,2,3]''))"

definition clashing_writer :: "string Writer" where
  "clashing_writer =
     fst (NewValue (fst (NewValue (New buffer_sink) [CHR 0xFF] (write_once ''[1,2,3]'')))
            [CHR 0xEF, CHR 0xBF, CHR 0xBD] (write_once ''false''))"

section \<open>Splitting the input of \<^verbatim>\<open>Write\<close>\<close>

lemma keep_byte_shift:
  "keep_byte w b n = (case keep_byte w b 0 of (w', k, e) \<Rightarrow> (w', n + k, e))"
  by (simp add: keep_byte_def Let_def split: prod.splits)

lemma finish_string_shift:
  "finish_string marshal w n = (case finish_string marshal w 0 of (w', k, e) \<Rightarrow> (w', n + k, e))"
  by (simp add: finish_string_def split: prod.splits sum.splits)

lemma outside_byte_shift:
  "outside_byte w b n = (case outside_byte w b 0 of (w', k, e) \<Rightarrow> (w', n + k, e))"
  by (simp add: outside_byte_def split: prod.splits option.splits)

lemma Write_byte_shift:
  "Write_byte marshal w b n = (case Write_byte marshal w b 0 of (w', k, e) \<Rightarrow> (w', n + k, e))"
proof (cases "onString w")
  case False
  then show ?thesis
    using outside_byte_shift [of w b n] by (simp add: Write_byte_def)
next
  case True
  obtain w1 k1 e1 where k: "keep_byte (track_escape w b) b 0 = (w1, k1, e1)"
    by (cases "keep_byte (track_escape w b) b 0") auto
  then have kn: "keep_byte (track_escape w b) b n = (w1, n + k1, e1)"
    using keep_byte_shift [of "track_escape w b" b n] by simp
  show ?thesis
  proof (cases e1)
    case (Some err)
    with True k kn show ?thesis by (simp add: Write_byte_def)
  next
    case None
    show ?thesis
    proof (cases "onString w1")
      case True
      with \<open>onString w\<close> None k kn show ?thesis by (simp add: Write_byte_def)
    next
      case False
      obtain w2 k2 e2 where f: "finish_string marshal w1 0 = (w2, k2, e2)"
        by (cases "finish_string marshal w1 0") auto
      have "finish_string marshal w1 (n + k1) = (w2, n + k1 + k2, e2)"
        using finish_string_shift [of marshal w1 "n + k1"] f by simp
      moreover have "finish_string marshal w1 k1 = (w2, k1 + k2, e2)"
        using finish_string_shift [of marshal w1 k1] f by simp
      ultimately show ?thesis
        using \<open>onString w\<close> None k kn False by (simp add: Write_byte_def)
    qed
  qed
qed

lemma Write_loop_shift:
  "Write_loop marshal w p n = (case Write_loop marshal w p 0 of (w', k, e) \<Rightarrow> (w', n + k, e))"
proof (induction p arbitrary: w n)
  case Nil
  show ?case by simp
next
  case (Cons b bs)
  obtain w1 k1 e1 where s: "Write_byte marshal w b 0 = (w1, k1, e1)"
    by (cases "Write_byte marshal w b 0") auto
  then have sn: "Write_byte marshal w b n = (w1, n + k1, e1)"
    using Write_byte_shift [of marshal w b n] by simp
  show ?case
  proof (cases e1)
    case (Some err)
    with s sn show ?thesis by simp
  next
    case None
    obtain w2 k2 e2 where l: "Write_loop marshal w1 bs 0 = (w2, k2, e2)"
      by (cases "Write_loop marshal w1 bs 0") auto
    have "Write_loop marshal w1 bs (n + k1) = (w2, n + k1 + k2, e2)"
      using Cons.IH [of w1 "n + k1"] l by simp
    moreover have "Write_loop marshal w1 bs k1 = (w2, k1 + k2, e2)"
      using Cons.IH [of w1 k1] l by simp
    ultimately show ?thesis using None s sn by simp
  qed
qed

lemma Write_loop_append:
  "Write_loop marshal w (p @ q) n =
     (case Write_loop marshal w p n of
        (w', n', Some err) \<Rightarrow> (w', n', Some err)
      | (w', n', None) \<Rightarrow> Write_loop marshal w' q n')"
  by (induction p arbitrary: w n) (auto split: prod.splits option.splits)


text \<open>
  C4. The slices of any split of a byte sequence, written by successive calls of \<^verbatim>\<open>Write\<close>,
  leave the writer and its sink in the state in which one call with the whole sequence
  leaves them, with the same error and the same bytes at the sink; the counts returned
  add up to the count of the single call.
\<close>

theorem Write_chunks_concat:
  "Write_chunks marshal w ps = Write marshal w (concat ps)"
proof (induction ps arbitrary: w)
  case Nil
  show ?case by (simp add: Write_def)
next
  case (Cons p ps)
  obtain w1 n1 e1 where p: "Write_loop marshal w p 0 = (w1, n1, e1)"
    by (cases "Write_loop marshal w p 0") auto
  show ?case
  proof (cases e1)
    case (Some err)
    with p show ?thesis by (simp add: Write_def Write_loop_append)
  next
    case None
    obtain w2 n2 e2 where q: "Write_loop marshal w1 (concat ps) 0 = (w2, n2, e2)"
      by (cases "Write_loop marshal w1 (concat ps) 0") auto
    have "Write_loop marshal w1 (concat ps) n1 = (w2, n1 + n2, e2)"
      using Write_loop_shift [of marshal w1 "concat ps" n1] q by simp
    moreover have "Write_chunks marshal w1 ps = (w2, n2, e2)"
      using Cons.IH [of w1] q by (simp add: Write_def)
    ultimately show ?thesis using p None by (simp add: Write_def Write_loop_append)
  qed
qed


section \<open>The registry\<close>

text \<open>
  C8. \<^verbatim>\<open>newValue\<close> fails, and then with \<^verbatim>\<open>ErrDuplicateKey\<close>, exactly when the key is in the map
  already; the writer, and so the entry of that key, is then unchanged. Otherwise the
  map gains the entry of the key, the value returned is that entry, and no other key is
  touched. The empty key is registered like any other when it is not in the map.
\<close>

theorem newValue_duplicate:
  "(snd (newValue w k fn) = Inl ErrDuplicateKey \<longleftrightarrow> k \<in> dom (Writer_m w))
   \<and> ((\<exists>e. snd (newValue w k fn) = Inl e) \<longleftrightarrow> k \<in> dom (Writer_m w))
   \<and> (k \<in> dom (Writer_m w) \<longrightarrow> fst (newValue w k fn) = w)
   \<and> (k \<notin> dom (Writer_m w) \<longrightarrow>
        newValue w k fn
          = (w\<lparr>Writer_m := (Writer_m w)(k \<mapsto> \<lparr>Value_key = k, Value_f = fn\<rparr>)\<rparr>,
             Inr \<lparr>Value_key = k, Value_f = fn\<rparr>))
   \<and> (\<forall>k'. k' \<noteq> k \<longrightarrow> Writer_m (fst (newValue w k fn)) k' = Writer_m w k')
   \<and> ([] \<notin> dom (Writer_m w) \<longrightarrow>
        (\<exists>w' v. newValue w [] fn = (w', Inr v) \<and> Writer_m w' [] = Some v
                \<and> Value_key v = [] \<and> Value_f v = fn))"
  by (auto simp: newValue_def Let_def split: option.splits)

text \<open>
  On a new writer: the empty key is registered, a second registration of it fails and
  changes nothing, and the key \<^verbatim>\<open>a\<close> is still free.
\<close>

theorem newValue_duplicate_witness:
  "[] \<notin> dom (Writer_m (New buffer_sink :: string Writer))
   \<and> newValue (New buffer_sink :: string Writer) [] (IsValueFunc (VReturn None))
       = ((New buffer_sink)\<lparr>Writer_m := [[] \<mapsto> \<lparr>Value_key = [], Value_f = IsValueFunc (VReturn None)\<rparr>]\<rparr>,
          Inr \<lparr>Value_key = [], Value_f = IsValueFunc (VReturn None)\<rparr>)
   \<and> [] \<in> dom (Writer_m (fst (newValue (New buffer_sink :: string Writer) [] (IsValueFunc (VReturn None)))))
   \<and> ''a'' \<notin> dom (Writer_m (fst (newValue (New buffer_sink :: string Writer) [] (IsValueFunc (VReturn None)))))
   \<and> snd (newValue (fst (newValue (New buffer_sink :: string Writer) [] (IsValueFunc (VReturn None))))
             [] (IsArrayValueFunc (AReturn None))) = Inl ErrDuplicateKey
   \<and> fst (newValue (fst (newValue (New buffer_sink :: string Writer) [] (IsValueFunc (VReturn None))))
             [] (IsArrayValueFunc (AReturn None)))
       = fst (newValue (New buffer_sink :: string Writer) [] (IsValueFunc (VReturn None)))
   \<and> snd (newValue (fst (newValue (New buffer_sink :: string Writer) [] (IsValueFunc (VReturn None))))
             ''a'' (IsArrayValueFunc (AReturn None)))
       = Inr \<lparr>Value_key = ''a'', Value_f = IsArrayValueFunc (AReturn None)\<rparr>"
proof -
  let ?w0 = "New buffer_sink :: string Writer"
  let ?f = "IsValueFunc (VReturn None) :: string Func"
  let ?g = "IsArrayValueFunc (AReturn None) :: string Func"
  have e: "[] \<notin> dom (Writer_m ?w0)" by (simp add: New_def)
  note t0 = newValue_duplicate [of ?w0 "[]" ?f]
  from t0 e have r0: "newValue ?w0 [] ?f
      = (?w0\<lparr>Writer_m := (Writer_m ?w0)([] \<mapsto> \<lparr>Value_key = [], Value_f = ?f\<rparr>)\<rparr>,
         Inr \<lparr>Value_key = [], Value_f = ?f\<rparr>)"
    by blast
  let ?w1 = "fst (newValue ?w0 [] ?f)"
  have d1: "[] \<in> dom (Writer_m ?w1)" and d2: "''a'' \<notin> dom (Writer_m ?w1)"
    using r0 by (simp_all add: New_def)
  note t1 = newValue_duplicate [of ?w1 "[]" ?g]
  from t1 d1 have r1: "snd (newValue ?w1 [] ?g) = Inl ErrDuplicateKey"
    and r2: "fst (newValue ?w1 [] ?g) = ?w1"
    by blast+
  note t2 = newValue_duplicate [of ?w1 "''a''" ?g]
  from t2 d2 have r3: "snd (newValue ?w1 ''a'' ?g) = Inr \<lparr>Value_key = ''a'', Value_f = ?g\<rparr>"
    by simp
  have r0': "newValue ?w0 [] ?f
      = (?w0\<lparr>Writer_m := [[] \<mapsto> \<lparr>Value_key = [], Value_f = ?f\<rparr>]\<rparr>,
         Inr \<lparr>Value_key = [], Value_f = ?f\<rparr>)"
    using r0 by (simp add: New_def)
  show ?thesis using e r0' d1 d2 r1 r2 r3 by blast
qed

section \<open>Input without markers\<close>

lemma io_Write_reliable:
  "reliable s \<Longrightarrow> io_Write s p = (s\<lparr>sunk := sunk s @ p\<rparr>, length p, None)"
  by (simp add: reliable_def io_Write_def)

lemma reliable_sunk_update [simp]: "reliable (s\<lparr>sunk := x\<rparr>) = reliable s"
  by (simp add: reliable_def)

lemma literals_from_Some:
  "\<exists>x xs. string_literals_from (Some l) esc p = x # xs \<and> prefix l x"
proof (induction p arbitrary: l esc)
  case Nil
  show ?case by simp
next
  case (Cons c cs)
  have ext: "\<And>e. \<exists>x xs. string_literals_from (Some (l @ [c])) e cs = x # xs \<and> prefix l x"
  proof -
    fix e
    obtain x xs where "string_literals_from (Some (l @ [c])) e cs = x # xs" "prefix (l @ [c]) x"
      using Cons.IH [of "l @ [c]" e] by blast
    then show "\<exists>x xs. string_literals_from (Some (l @ [c])) e cs = x # xs \<and> prefix l x"
      by (auto dest: append_prefixD)
  qed
  show ?case using ext by auto
qed

lemma ordinary_step:
  assumes rel: "reliable (Writer_w w)"
    and tr: "tracks w (cur, esc)"
    and ok: "\<And>l. cur = Some l \<Longrightarrow> \<not> prefix streamJSONPrefix (l @ [b])"
  shows "\<exists>w' n'. Write_byte marshal w b n = (w', n', None)
           \<and> tracks w' (scan_end cur esc [b])
           \<and> sunk (Writer_w w') @ pending w' = sunk (Writer_w w) @ pending w @ [b]
           \<and> reliable (Writer_w w') \<and> Writer_m w' = Writer_m w"
proof (cases cur)
  case None
  with tr have "\<not> onString w" by (simp add: tracks_def)
  with None rel show ?thesis
    by (simp add: Write_byte_def outside_byte_def io_Write_reliable tracks_def pending_def
        streamJSONPrefix_def)
next
  case (Some l)
  with tr have on: "onString w" and esc: "escaping w = esc"
    and st: "if length l < length streamJSONPrefix
             then streamState w = stateUndetermined \<and> stringBuf w = l
             else streamState w = stateNotValue"
    by (simp_all add: tracks_def)
  from ok Some have nopre: "\<not> prefix streamJSONPrefix (l @ [b])" by simp
  show ?thesis
  proof (cases "length l < length streamJSONPrefix")
    case False
    with st have "streamState w = stateNotValue" by simp
    with on esc rel Some False show ?thesis
      by (simp add: Write_byte_def track_escape_def keep_byte_def finish_string_def
          io_Write_reliable tracks_def pending_def)
  next
    case True
    with st have u: "streamState w = stateUndetermined" and buf: "stringBuf w = l" by simp_all
    from True u buf on esc rel Some nopre show ?thesis
      by (auto simp add: Write_byte_def track_escape_def keep_byte_def finish_string_def
          io_Write_reliable tracks_def pending_def Let_def)
  qed
qed



lemma ok_step:
  assumes "list_all (\<lambda>l. \<not> prefix streamJSONPrefix l) (string_literals_from (Some l) esc (b # bs))"
  shows "\<not> prefix streamJSONPrefix (l @ [b])"
proof -
  have ext: "\<And>e. list_all (\<lambda>l. \<not> prefix streamJSONPrefix l) (string_literals_from (Some (l @ [b])) e bs)
      \<Longrightarrow> \<not> prefix streamJSONPrefix (l @ [b])"
  proof -
    fix e
    assume a: "list_all (\<lambda>l. \<not> prefix streamJSONPrefix l) (string_literals_from (Some (l @ [b])) e bs)"
    obtain x xs where x: "string_literals_from (Some (l @ [b])) e bs = x # xs" "prefix (l @ [b]) x"
      using literals_from_Some [of "l @ [b]" e bs] by blast
    with a have "\<not> prefix streamJSONPrefix x" by simp
    with x(2) show "\<not> prefix streamJSONPrefix (l @ [b])"
      using prefix_order.trans by blast
  qed
  show ?thesis
  proof (cases "\<not> esc \<and> b = quote")
    case True
    with assms show ?thesis by simp
  next
    case False
    then have "\<exists>e. string_literals_from (Some l) esc (b # bs)
                 = string_literals_from (Some (l @ [b])) e bs"
      by auto
    with assms ext show ?thesis by metis
  qed
qed

lemma ok_rest:
  assumes "list_all (\<lambda>l. \<not> prefix streamJSONPrefix l) (string_literals_from cur esc (b # bs))"
  shows "list_all (\<lambda>l. \<not> prefix streamJSONPrefix l)
           (string_literals_from (fst (scan_end cur esc [b])) (snd (scan_end cur esc [b])) bs)"
  using assms by (cases cur) (auto split: if_splits)

lemma scan_end_step:
  "scan_end cur esc (b # bs) = scan_end (fst (scan_end cur esc [b])) (snd (scan_end cur esc [b])) bs"
  by (cases cur) auto

lemma ordinary_run:
  assumes "reliable (Writer_w w)"
    and "tracks w (cur, esc)"
    and "list_all (\<lambda>l. \<not> prefix streamJSONPrefix l) (string_literals_from cur esc p)"
  shows "\<exists>w' n'. Write_loop marshal w p n = (w', n', None)
           \<and> tracks w' (scan_end cur esc p)
           \<and> sunk (Writer_w w') @ pending w' = sunk (Writer_w w) @ pending w @ p
           \<and> reliable (Writer_w w') \<and> Writer_m w' = Writer_m w"
  using assms
proof (induction p arbitrary: w cur esc n)
  case Nil
  then show ?case by simp
next
  case (Cons b bs)
  have "\<And>l. cur = Some l \<Longrightarrow> \<not> prefix streamJSONPrefix (l @ [b])"
    using Cons.prems(3) ok_step by blast
  then obtain w1 n1 where s: "Write_byte marshal w b n = (w1, n1, None)"
    and t1: "tracks w1 (scan_end cur esc [b])"
    and o1: "sunk (Writer_w w1) @ pending w1 = sunk (Writer_w w) @ pending w @ [b]"
    and r1: "reliable (Writer_w w1)" and m1: "Writer_m w1 = Writer_m w"
    using ordinary_step [OF Cons.prems(1) Cons.prems(2), of b marshal n] by blast
  have t1': "tracks w1 (fst (scan_end cur esc [b]), snd (scan_end cur esc [b]))"
    using t1 by simp
  obtain w2 n2 where l: "Write_loop marshal w1 bs n1 = (w2, n2, None)"
    and t2: "tracks w2 (scan_end (fst (scan_end cur esc [b])) (snd (scan_end cur esc [b])) bs)"
    and o2: "sunk (Writer_w w2) @ pending w2 = sunk (Writer_w w1) @ pending w1 @ bs"
    and r2: "reliable (Writer_w w2)" and m2: "Writer_m w2 = Writer_m w1"
    using Cons.IH [OF r1 t1' ok_rest [OF Cons.prems(3)], of n1] by blast
  have "Write_loop marshal w (b # bs) n = (w2, n2, None)"
    using s l by simp
  moreover have "tracks w2 (scan_end cur esc (b # bs))"
    using t2 scan_end_step [of cur esc b bs] by simp
  moreover have "sunk (Writer_w w2) @ pending w2 = sunk (Writer_w w) @ pending w @ b # bs"
  proof -
    have "sunk (Writer_w w2) @ pending w2 = (sunk (Writer_w w1) @ pending w1) @ bs"
      using o2 by simp
    also have "\<dots> = (sunk (Writer_w w) @ pending w @ [b]) @ bs"
      by (simp only: o1)
    finally show ?thesis by simp
  qed
  ultimately show ?case using r2 m2 m1 by simp
qed

lemma string_literal_iff:
  "string_literal l \<longleftrightarrow> (\<exists>c. l = quote # c @ [quote] \<and> escaped_content c)"
proof
  assume a: "string_literal l"
  then obtain x xs where l: "l = x # xs" by (cases l) (auto simp: string_literal_def)
  with a have "xs \<noteq> []" by (auto simp: string_literal_def)
  moreover from a l \<open>xs \<noteq> []\<close> have "last xs = quote" "x = quote" "escaped_content (butlast xs)"
    by (simp_all add: string_literal_def)
  ultimately have "l = quote # butlast xs @ [quote]" "escaped_content (butlast xs)"
    using l append_butlast_last_id [of xs] by simp_all
  then show "\<exists>c. l = quote # c @ [quote] \<and> escaped_content c" by blast
next
  assume "\<exists>c. l = quote # c @ [quote] \<and> escaped_content c"
  then show "string_literal l" by (auto simp: string_literal_def)
qed

lemma scan_end_content:
  "escaped_content c \<Longrightarrow>
     scan_end (Some l) False (take k c) = (Some (l @ take k c), \<not> escaped_content (take k c))"
proof (induction c arbitrary: l k rule: escaped_content.induct)
  case 1
  show ?case by simp
next
  case (2 c)
  then show ?case by (cases k) auto
next
  case (3 c d cs)
  show ?case
  proof (cases k)
    case 0
    then show ?thesis by simp
  next
    case (Suc k1)
    show ?thesis
    proof (cases k1)
      case 0
      with Suc "3.prems" show ?thesis by (auto split: if_splits)
    next
      case (Suc k2)
      show ?thesis
      proof (cases "c = backslash")
        case True
        with "3.prems" have ec: "escaped_content cs" by simp
        have "scan_end (Some ((l @ [c, d]))) False (take k2 cs)
                = (Some ((l @ [c, d]) @ take k2 cs), \<not> escaped_content (take k2 cs))"
          using "3.IH"(1) [OF True ec] .
        with True \<open>k = Suc k1\<close> Suc show ?thesis by simp
      next
        case False
        with "3.prems" have cq: "c \<noteq> quote" and ec: "escaped_content (d # cs)" by simp_all
        have "scan_end (Some (l @ [c])) False (take k1 (d # cs))
                = (Some ((l @ [c]) @ take k1 (d # cs)), \<not> escaped_content (take k1 (d # cs)))"
          using "3.IH"(2) [OF False ec] .
        with False cq \<open>k = Suc k1\<close> Suc show ?thesis by simp
      qed
    qed
  qed
qed

lemma scan_end_append:
  "scan_end cur esc (p @ q) = scan_end (fst (scan_end cur esc p)) (snd (scan_end cur esc p)) q"
proof (induction p arbitrary: cur esc)
  case Nil
  show ?case by simp
next
  case (Cons b bs)
  show ?case
    using Cons.IH scan_end_step [of cur esc b "bs @ q"] scan_end_step [of cur esc b bs]
    by simp
qed

lemma literals_content:
  "escaped_content c \<Longrightarrow>
     string_literals_from (Some l) False (c @ quote # q)
       = (l @ c @ [quote]) # string_literals_from None False q"
proof (induction c arbitrary: l rule: escaped_content.induct)
  case 1
  show ?case by simp
next
  case (2 c)
  then show ?case by simp
next
  case (3 c d cs)
  show ?case
  proof (cases "c = backslash")
    case True
    with "3.prems" have ec: "escaped_content cs" by simp
    show ?thesis using "3.IH"(1) [OF True ec, of "l @ [c, d]"] True by simp
  next
    case False
    with "3.prems" have cq: "c \<noteq> quote" and ec: "escaped_content (d # cs)" by simp_all
    show ?thesis using "3.IH"(2) [OF False ec, of "l @ [c]"] False cq by simp
  qed
qed

lemma literals_open_content:
  "escaped_content c \<Longrightarrow>
     string_literals_from (Some l) False (take k c) = [l @ take k c]"
proof (induction c arbitrary: l k rule: escaped_content.induct)
  case 1
  show ?case by simp
next
  case (2 c)
  then show ?case by (cases k) auto
next
  case (3 c d cs)
  show ?case
  proof (cases k)
    case 0
    then show ?thesis by simp
  next
    case (Suc k1)
    show ?thesis
    proof (cases k1)
      case 0
      with Suc "3.prems" show ?thesis by (auto split: if_splits)
    next
      case (Suc k2)
      show ?thesis
      proof (cases "c = backslash")
        case True
        with "3.prems" have ec: "escaped_content cs" by simp
        show ?thesis
          using "3.IH"(1) [OF True ec, of "l @ [c, d]" k2] True \<open>k = Suc k1\<close> Suc by simp
      next
        case False
        with "3.prems" have cq: "c \<noteq> quote" and ec: "escaped_content (d # cs)" by simp_all
        show ?thesis
          using "3.IH"(2) [OF False ec, of "l @ [c]" k1] False cq \<open>k = Suc k1\<close> Suc by simp
      qed
    qed
  qed
qed


lemma short_not_prefix:
  "length l < length streamJSONPrefix \<Longrightarrow> \<not> prefix streamJSONPrefix l"
  using prefix_length_le by fastforce

lemma tracks_pending:
  "tracks w st \<Longrightarrow>
     pending w = (case fst st of None \<Rightarrow> []
                  | Some l \<Rightarrow> if length l < length streamJSONPrefix then l else [])"
  by (auto simp: tracks_def pending_def split: option.splits if_splits)

lemma tracks_outside: "\<not> onString w \<Longrightarrow> tracks w (None, False)"
  by (simp add: tracks_def)

lemma ordinary_Write:
  assumes rel: "reliable (Writer_w w)" and out: "\<not> onString w" and nc: "no_collision p"
  shows "\<exists>w' n. Write marshal w p = (w', n, None)
           \<and> tracks w' (scan_end None False p)
           \<and> sunk (Writer_w w') @ held_back p = sunk (Writer_w w) @ p
           \<and> reliable (Writer_w w') \<and> Writer_m w' = Writer_m w"
proof -
  from nc have l: "list_all (\<lambda>l. \<not> prefix streamJSONPrefix l) (string_literals_from None False p)"
    by (simp add: no_collision_def string_literals_def)
  obtain w' n where r: "Write_loop marshal w p 0 = (w', n, None)"
    and t: "tracks w' (scan_end None False p)"
    and s: "sunk (Writer_w w') @ pending w' = sunk (Writer_w w) @ pending w @ p"
    and r': "reliable (Writer_w w')" and m: "Writer_m w' = Writer_m w"
    using ordinary_run [OF rel tracks_outside [OF out] l, of marshal 0] by blast
  have "pending w = []" using out by (simp add: pending_def)
  moreover have "pending w' = held_back p"
    using tracks_pending [OF t] by (simp add: held_back_def)
  ultimately have "sunk (Writer_w w') @ held_back p = sunk (Writer_w w) @ p"
    using s by simp
  with r t r' m show ?thesis by (simp add: Write_def)
qed

lemma literal_facts:
  assumes "escaped_content c"
  shows "string_literals (quote # c @ [quote]) = [quote # c @ [quote]]"
    and "scan_end None False (quote # c @ [quote]) = (None, False)"
    and "string_literals (quote # take k c) = [quote # take k c]"
    and "scan_end None False (quote # take k c)
           = (Some (quote # take k c), \<not> escaped_content (take k c))"
proof -
  show "string_literals (quote # c @ [quote]) = [quote # c @ [quote]]"
    using literals_content [OF assms, of "[quote]" "[]"] by (simp add: string_literals_def)
  have "scan_end (Some [quote]) False (take (length c) c) = (Some ([quote] @ c), False)"
    using scan_end_content [OF assms, of "[quote]" "length c"] assms by simp
  then have "scan_end (Some [quote]) False (c @ [quote]) = (None, False)"
    using scan_end_append [of "Some [quote]" False c "[quote]"] by simp
  then show "scan_end None False (quote # c @ [quote]) = (None, False)" by simp
  show "string_literals (quote # take k c) = [quote # take k c]"
    using literals_open_content [OF assms, of "[quote]" k] by (simp add: string_literals_def)
  show "scan_end None False (quote # take k c) = (Some (quote # take k c), \<not> escaped_content (take k c))"
    using scan_end_content [OF assms, of "[quote]" k] by simp
qed

lemma reliable_buffer_sink: "reliable buffer_sink"
  by (simp add: reliable_def buffer_sink_def)

lemma New_outside: "\<not> onString (New s)" "Writer_w (New s) = s" "Writer_m (New s) = Map.empty"
  by (simp_all add: New_def)

lemma sunk_buffer_sink: "sunk buffer_sink = []"
  by (simp add: buffer_sink_def)

text \<open>
  C3 (amended). On a sink that never fails, from outside a string: for an input none of
  whose string literals begins with the escaped reserved prefix, \<^verbatim>\<open>Write\<close> succeeds and the
  bytes forwarded to the sink, followed by the bytes of a literal that the input leaves
  open and that is still shorter than the escaped prefix, are the input unchanged; when
  the input leaves no such literal open, the bytes forwarded are the input. A
  complete literal shorter than the escaped prefix is held back until its closing quote
  and is then at the sink byte for byte.
\<close>

theorem ordinary_input_forwarded:
  assumes rel: "reliable (Writer_w w)" and out: "\<not> onString w"
  shows "(no_collision p \<longrightarrow>
            (\<exists>w' n. Write marshal w p = (w', n, None)
               \<and> sunk (Writer_w w') @ held_back p = sunk (Writer_w w) @ p))
       \<and> (no_collision p \<and> held_back p = [] \<longrightarrow>
            (\<exists>w' n. Write marshal w p = (w', n, None)
               \<and> sunk (Writer_w w') = sunk (Writer_w w) @ p))
       \<and> (string_literal lit \<and> length lit < length streamJSONPrefix \<longrightarrow>
            (\<exists>w' n. Write marshal w (butlast lit) = (w', n, None)
               \<and> sunk (Writer_w w') = sunk (Writer_w w))
          \<and> (\<exists>w' n. Write marshal w lit = (w', n, None)
               \<and> sunk (Writer_w w') = sunk (Writer_w w) @ lit))"
proof (intro conjI impI)
  assume "no_collision p"
  then show "\<exists>w' n. Write marshal w p = (w', n, None)
               \<and> sunk (Writer_w w') @ held_back p = sunk (Writer_w w) @ p"
    using ordinary_Write [OF rel out, of p marshal] by blast
next
  assume "no_collision p \<and> held_back p = []"
  then show "\<exists>w' n. Write marshal w p = (w', n, None)
               \<and> sunk (Writer_w w') = sunk (Writer_w w) @ p"
    using ordinary_Write [OF rel out, of p marshal] by auto
next
  assume a: "string_literal lit \<and> length lit < length streamJSONPrefix"
  then obtain c where lit: "lit = quote # c @ [quote]" and ec: "escaped_content c"
    using string_literal_iff by blast
  have bl: "butlast lit = quote # take (length c) c" using lit by (simp add: butlast_append)
  have short: "length (quote # take (length c) c) < length streamJSONPrefix" using a lit by simp
  have nc: "no_collision (quote # take (length c) c)"
    using literal_facts(3) [OF ec, of "length c"] short_not_prefix [OF short]
    by (simp add: no_collision_def)
  have hb: "held_back (quote # take (length c) c) = quote # take (length c) c"
    using literal_facts(4) [OF ec, of "length c"] short by (simp add: held_back_def)
  obtain w' n where "Write marshal w (quote # take (length c) c) = (w', n, None)"
    and "sunk (Writer_w w') @ held_back (quote # take (length c) c)
           = sunk (Writer_w w) @ quote # take (length c) c"
    using ordinary_Write [OF rel out nc, of marshal] by blast
  with hb bl show "\<exists>w' n. Write marshal w (butlast lit) = (w', n, None)
               \<and> sunk (Writer_w w') = sunk (Writer_w w)"
    by simp
next
  assume a: "string_literal lit \<and> length lit < length streamJSONPrefix"
  then obtain c where lit: "lit = quote # c @ [quote]" and ec: "escaped_content c"
    using string_literal_iff by blast
  have nc: "no_collision lit"
    using literal_facts(1) [OF ec] a lit short_not_prefix [of lit]
    by (simp add: no_collision_def)
  have hb: "held_back lit = []"
    using literal_facts(2) [OF ec] lit by (simp add: held_back_def)
  show "\<exists>w' n. Write marshal w lit = (w', n, None)
               \<and> sunk (Writer_w w') = sunk (Writer_w w) @ lit"
    using ordinary_Write [OF rel out nc, of marshal] hb by auto
qed

text \<open>
  The same on a document with a short and a long ordinary string, and on the literal
  \<^verbatim>\<open>"ab"\<close> before and after its closing quote.
\<close>

theorem ordinary_input_forwarded_witness:
  "reliable (Writer_w (New buffer_sink :: string Writer))
   \<and> \<not> onString (New buffer_sink :: string Writer)
   \<and> no_collision (''{'' @ [quote] @ ''ab'' @ [quote] @ '':'' @ [quote] @ ''carp streamer'' @ [quote] @ ''}'')
   \<and> string_literal ([quote] @ ''ab'' @ [quote])
   \<and> length ([quote] @ ''ab'' @ [quote]) < length streamJSONPrefix
   \<and> (\<exists>w' n. Write raw_marshal (New buffer_sink)
                 (''{'' @ [quote] @ ''ab'' @ [quote] @ '':'' @ [quote] @ ''carp streamer'' @ [quote] @ ''}'')
                = (w', n, None)
             \<and> sunk (Writer_w w')
                = ''{'' @ [quote] @ ''ab'' @ [quote] @ '':'' @ [quote] @ ''carp streamer'' @ [quote] @ ''}'')
   \<and> (\<exists>w' n. Write raw_marshal (New buffer_sink) ([quote] @ ''ab'') = (w', n, None)
             \<and> sunk (Writer_w w') = [])
   \<and> (\<exists>w' n. Write raw_marshal (New buffer_sink) ([quote] @ ''ab'' @ [quote]) = (w', n, None)
             \<and> sunk (Writer_w w') = [quote] @ ''ab'' @ [quote])"
proof -
  let ?w = "New buffer_sink :: string Writer"
  let ?p = "''{'' @ [quote] @ ''ab'' @ [quote] @ '':'' @ [quote] @ ''carp streamer'' @ [quote] @ ''}''"
  let ?lit = "[quote] @ ''ab'' @ [quote]"
  have h1: "reliable (Writer_w ?w)" by (simp add: New_outside reliable_buffer_sink)
  have h2: "\<not> onString ?w" by (simp add: New_outside)
  have h3: "no_collision ?p"
    by (simp add: no_collision_def string_literals_def streamJSONPrefix_def)
  have h4: "string_literal ?lit" by (simp add: string_literal_def)
  have h5: "length ?lit < length streamJSONPrefix" by (simp add: streamJSONPrefix_def)
  have hb: "held_back ?p = []" by (simp add: held_back_def)
  have bl: "butlast ?lit = [quote] @ ''ab''" by simp
  show ?thesis
    using ordinary_input_forwarded [OF h1 h2, of ?p raw_marshal ?lit] h1 h2 h3 h4 h5 hb
    unfolding bl by (simp add: New_outside sunk_buffer_sink)
qed

text \<open>
  C3 as stated fails on the input \<^verbatim>\<open>"ab\<close>: no literal of it begins with the escaped prefix,
  and nothing is forwarded, the three bytes wait in the buffer.
\<close>

theorem unfinished_literal_not_forwarded:
  "no_collision [quote, CHR ''a'', CHR ''b'']
   \<and> reliable (Writer_w (New buffer_sink :: string Writer))
   \<and> \<not> onString (New buffer_sink :: string Writer)
   \<and> Write raw_marshal (New buffer_sink) [quote, CHR ''a'', CHR ''b'']
        = (\<lparr>Writer_w = buffer_sink, Writer_m = Map.empty, onString = True, escaping = False,
            streamState = stateUndetermined, stringBuf = [quote, CHR ''a'', CHR ''b'']\<rparr>, 0, None)
   \<and> sunk (Writer_w (fst (Write raw_marshal (New buffer_sink :: string Writer) [quote, CHR ''a'', CHR ''b''])))
        \<noteq> [quote, CHR ''a'', CHR ''b'']"
  by (simp add: no_collision_def string_literals_def streamJSONPrefix_def New_def
      reliable_buffer_sink Write_def Write_byte_def outside_byte_def track_escape_def
      keep_byte_def Let_def sunk_buffer_sink)

text \<open>
  C5. On a sink that never fails, from outside a string: a literal whose content is made
  of plain bytes and escapes (a backslash and the byte after it), and that does not
  begin with the escaped prefix, reaches the sink unchanged and ends the string at its
  last quote, not before: after the opening quote and any part of the content the
  interceptor is still inside the string, has not classified it as a marker, and its
  escape flag is set exactly when that part ends in a backslash that escapes the byte
  to come.
\<close>

theorem escapes_do_not_end_string:
  assumes rel: "reliable (Writer_w w)" and out: "\<not> onString w"
    and ec: "escaped_content c"
    and ord: "\<not> prefix streamJSONPrefix (quote # c @ [quote])"
  shows "(\<exists>w' n. Write marshal w (quote # c @ [quote]) = (w', n, None)
            \<and> \<not> onString w'
            \<and> sunk (Writer_w w') = sunk (Writer_w w) @ quote # c @ [quote])
       \<and> (\<forall>k\<le>length c.
            \<exists>w' n. Write marshal w (quote # take k c) = (w', n, None)
              \<and> onString w' \<and> streamState w' \<noteq> stateValue
              \<and> escaping w' = (\<not> escaped_content (take k c)))"
proof (intro conjI allI impI)
  have nc: "no_collision (quote # c @ [quote])"
    using literal_facts(1) [OF ec] ord by (simp add: no_collision_def)
  have hb: "held_back (quote # c @ [quote]) = []"
    using literal_facts(2) [OF ec] by (simp add: held_back_def)
  obtain w' n where r: "Write marshal w (quote # c @ [quote]) = (w', n, None)"
    and t: "tracks w' (scan_end None False (quote # c @ [quote]))"
    and s: "sunk (Writer_w w') @ held_back (quote # c @ [quote])
              = sunk (Writer_w w) @ quote # c @ [quote]"
    using ordinary_Write [OF rel out nc, of marshal] by blast
  have "\<not> onString w'" using t literal_facts(2) [OF ec] by (simp add: tracks_def)
  with r s hb show "\<exists>w' n. Write marshal w (quote # c @ [quote]) = (w', n, None)
            \<and> \<not> onString w'
            \<and> sunk (Writer_w w') = sunk (Writer_w w) @ quote # c @ [quote]"
    by simp
next
  fix k
  assume "k \<le> length c"
  have "prefix (quote # take k c) (quote # c @ [quote])"
    by (metis Cons_prefix_Cons append_take_drop_id prefixI append.assoc)
  with ord have np: "\<not> prefix streamJSONPrefix (quote # take k c)"
    using prefix_order.trans by blast
  have nc: "no_collision (quote # take k c)"
    using literal_facts(3) [OF ec, of k] np by (simp add: no_collision_def)
  obtain w' n where r: "Write marshal w (quote # take k c) = (w', n, None)"
    and t: "tracks w' (scan_end None False (quote # take k c))"
    using ordinary_Write [OF rel out nc, of marshal] by blast
  from t have "onString w'" "streamState w' \<noteq> stateValue"
    "escaping w' = (\<not> escaped_content (take k c))"
    using literal_facts(4) [OF ec, of k] by (auto simp: tracks_def split: if_splits)
  with r show "\<exists>w' n. Write marshal w (quote # take k c) = (w', n, None)
              \<and> onString w' \<and> streamState w' \<noteq> stateValue
              \<and> escaping w' = (\<not> escaped_content (take k c))"
    by simp
qed

text \<open>The content \<^verbatim>\<open>a\<backslash>"b\<backslash>\<backslash>c\<close> of the specification, whole and cut after 3 and 2 bytes.\<close>

theorem escapes_do_not_end_string_witness:
  "reliable (Writer_w (New buffer_sink :: string Writer))
   \<and> \<not> onString (New buffer_sink :: string Writer)
   \<and> escaped_content (''a'' @ [backslash, quote] @ ''b'' @ [backslash, backslash] @ ''c'')
   \<and> \<not> prefix streamJSONPrefix (quote # (''a'' @ [backslash, quote] @ ''b'' @ [backslash, backslash] @ ''c'') @ [quote])
   \<and> (\<exists>w' n. Write raw_marshal (New buffer_sink)
                 (quote # (''a'' @ [backslash, quote] @ ''b'' @ [backslash, backslash] @ ''c'') @ [quote])
                = (w', n, None)
             \<and> \<not> onString w'
             \<and> sunk (Writer_w w')
                = quote # (''a'' @ [backslash, quote] @ ''b'' @ [backslash, backslash] @ ''c'') @ [quote])
   \<and> (\<exists>w' n. Write raw_marshal (New buffer_sink) (quote # ''a'' @ [backslash, quote]) = (w', n, None)
             \<and> onString w' \<and> streamState w' \<noteq> stateValue \<and> \<not> escaping w')
   \<and> (\<exists>w' n. Write raw_marshal (New buffer_sink) (quote # ''a'' @ [backslash]) = (w', n, None)
             \<and> onString w' \<and> streamState w' \<noteq> stateValue \<and> escaping w')"
proof -
  let ?w = "New buffer_sink :: string Writer"
  let ?c = "''a'' @ [backslash, quote] @ ''b'' @ [backslash, backslash] @ ''c''"
  have h1: "reliable (Writer_w ?w)" by (simp add: New_outside reliable_buffer_sink)
  have h2: "\<not> onString ?w" by (simp add: New_outside)
  have h3: "escaped_content ?c" by simp
  have h4: "\<not> prefix streamJSONPrefix (quote # ?c @ [quote])" by (simp add: streamJSONPrefix_def)
  note t = escapes_do_not_end_string [OF h1 h2 h3 h4, of raw_marshal]
  from t have a: "\<exists>w' n. Write raw_marshal ?w (quote # ?c @ [quote]) = (w', n, None)
            \<and> \<not> onString w'
            \<and> sunk (Writer_w w') = sunk (Writer_w ?w) @ quote # ?c @ [quote]"
    by blast
  from t have "3 \<le> length ?c \<longrightarrow> (\<exists>w' n. Write raw_marshal ?w (quote # take 3 ?c) = (w', n, None)
              \<and> onString w' \<and> streamState w' \<noteq> stateValue
              \<and> escaping w' = (\<not> escaped_content (take 3 ?c)))"
    by blast
  then have b: "\<exists>w' n. Write raw_marshal ?w (quote # ''a'' @ [backslash, quote]) = (w', n, None)
             \<and> onString w' \<and> streamState w' \<noteq> stateValue \<and> \<not> escaping w'"
    by simp
  from t have "2 \<le> length ?c \<longrightarrow> (\<exists>w' n. Write raw_marshal ?w (quote # take 2 ?c) = (w', n, None)
              \<and> onString w' \<and> streamState w' \<noteq> stateValue
              \<and> escaping w' = (\<not> escaped_content (take 2 ?c)))"
    by blast
  then have c: "\<exists>w' n. Write raw_marshal ?w (quote # ''a'' @ [backslash]) = (w', n, None)
             \<and> onString w' \<and> streamState w' \<noteq> stateValue \<and> escaping w'"
    by simp
  from a have a': "\<exists>w' n. Write raw_marshal ?w (quote # ?c @ [quote]) = (w', n, None)
            \<and> \<not> onString w'
            \<and> sunk (Writer_w w') = quote # ?c @ [quote]"
    by (simp add: New_outside sunk_buffer_sink)
  show ?thesis using h1 h2 h3 h4 a' b c by blast
qed

section \<open>Evaluation on concrete inputs\<close>

lemmas Write_unfold =
  Write_def Write_byte_def outside_byte_def track_escape_def keep_byte_def finish_string_def
  streamValue_def io_Write_def Let_def streamJSONPrefix_def streamPrefix_def

lemmas codec_unfold =
  MarshalJSON_def json_Marshal_string_def json_Unmarshal_string_def htmlSafe_def
  continuation_def RuneError_def EncodeRune_def hexval_def char_of_eq_iff

section \<open>Markers\<close>

lemma Write_loop_append_ok:
  "Write_loop marshal w p n = (w1, n1, None) \<Longrightarrow>
     Write_loop marshal w (p @ q) n = Write_loop marshal w1 q n1"
  by (simp add: Write_loop_append)

lemma Write_loop_single: "Write_loop marshal w [b] n = Write_byte marshal w b n"
  by (cases "Write_byte marshal w b n") (auto split: option.splits)

lemma escaped_content_plain:
  "c \<noteq> backslash \<Longrightarrow> c \<noteq> quote \<Longrightarrow> escaped_content (c # cs) = escaped_content cs"
  by (cases cs) simp_all

lemma marker_prefix_run:
  "\<not> onString w \<Longrightarrow>
     Write_loop marshal w streamJSONPrefix n
       = (w\<lparr>onString := True, escaping := False, streamState := stateValue,
            stringBuf := streamJSONPrefix\<rparr>, n, None)"
  by (simp add: streamJSONPrefix_def Write_byte_def outside_byte_def track_escape_def
      keep_byte_def Let_def)

lemma marker_content_run:
  "escaped_content c \<Longrightarrow> onString w \<Longrightarrow> \<not> escaping w \<Longrightarrow> streamState w = stateValue \<Longrightarrow>
     Write_loop marshal w c n = (w\<lparr>stringBuf := stringBuf w @ c\<rparr>, n, None)"
proof (induction c arbitrary: w rule: escaped_content.induct)
  case 1
  show ?case by simp
next
  case (2 c)
  then show ?case
    by (simp add: Write_byte_def track_escape_def keep_byte_def Let_def)
next
  case (3 c d cs)
  show ?case
  proof (cases "c = backslash")
    case True
    with "3.prems" have ec: "escaped_content cs" by simp
    let ?w2 = "w\<lparr>stringBuf := stringBuf w @ [c, d]\<rparr>"
    have two: "Write_loop marshal w [c, d] n = (?w2, n, None)"
      using True "3.prems"(2-4)
      by (simp add: Write_byte_def track_escape_def keep_byte_def Let_def)
    have rest: "Write_loop marshal ?w2 cs n = (?w2\<lparr>stringBuf := stringBuf ?w2 @ cs\<rparr>, n, None)"
      using "3.IH"(1) [OF True ec, of ?w2] "3.prems"(2-4) by simp
    have "Write_loop marshal w ([c, d] @ cs) n = (?w2\<lparr>stringBuf := stringBuf ?w2 @ cs\<rparr>, n, None)"
      using Write_loop_append_ok [OF two, of cs] rest by simp
    then show ?thesis by simp
  next
    case False
    with "3.prems" have cq: "c \<noteq> quote" and ec: "escaped_content (d # cs)" by simp_all
    let ?w1 = "w\<lparr>stringBuf := stringBuf w @ [c]\<rparr>"
    have one: "Write_byte marshal w c n = (?w1, n, None)"
      using False cq "3.prems"(2-4)
      by (simp add: Write_byte_def track_escape_def keep_byte_def Let_def)
    have rest: "Write_loop marshal ?w1 (d # cs) n
                  = (?w1\<lparr>stringBuf := stringBuf ?w1 @ d # cs\<rparr>, n, None)"
      using "3.IH"(2) [OF False ec, of ?w1] "3.prems"(2-4) by simp
    show ?thesis using one rest by simp
  qed
qed

lemma marker_close:
  "onString w \<Longrightarrow> \<not> escaping w \<Longrightarrow> streamState w = stateValue \<Longrightarrow>
     Write_byte marshal w quote n
       = finish_string marshal (w\<lparr>onString := False, stringBuf := stringBuf w @ [quote]\<rparr>) n"
  by (simp add: Write_byte_def track_escape_def keep_byte_def Let_def)

lemma marker_split:
  assumes "string_literal lit" and "prefix streamJSONPrefix lit"
  shows "\<exists>c. lit = streamJSONPrefix @ c @ [quote] \<and> escaped_content c"
proof -
  obtain c0 where lit: "lit = quote # c0 @ [quote]" and ec: "escaped_content c0"
    using assms(1) string_literal_iff by blast
  from assms(2) obtain r where r: "lit = streamJSONPrefix @ r" by (auto simp: prefix_def)
  with lit have e: "c0 @ [quote] = [backslash, backslash, CHR 0xF0, CHR 0x9F, CHR 0x8E, CHR 0x8F] @ r"
    by (simp add: streamJSONPrefix_def)
  have "r \<noteq> []"
  proof
    assume "r = []"
    with e have "last (c0 @ [quote]) = CHR 0x8F" by simp
    then show False by simp
  qed
  then obtain c where rc: "r = c @ [quote]"
    using e by (metis append_butlast_last_id last_appendR last_snoc)
  with e have c0: "c0 = [backslash, backslash, CHR 0xF0, CHR 0x9F, CHR 0x8E, CHR 0x8F] @ c"
    by simp
  with ec have "escaped_content c" by (simp add: escaped_content_plain)
  with r rc show ?thesis by blast
qed

lemma marker_run:
  assumes out: "\<not> onString w" and sl: "string_literal lit" and pre: "prefix streamJSONPrefix lit"
  shows "Write_loop marshal w lit n = finish_string marshal (dispatching w lit) n"
proof -
  obtain c where lit: "lit = streamJSONPrefix @ c @ [quote]" and ec: "escaped_content c"
    using marker_split [OF sl pre] by blast
  let ?w1 = "w\<lparr>onString := True, escaping := False, streamState := stateValue,
              stringBuf := streamJSONPrefix\<rparr>"
  let ?w2 = "?w1\<lparr>stringBuf := stringBuf ?w1 @ c\<rparr>"
  have a: "Write_loop marshal w streamJSONPrefix n = (?w1, n, None)"
    using marker_prefix_run [OF out] .
  have b: "Write_loop marshal ?w1 c n = (?w2, n, None)"
    using marker_content_run [OF ec, of ?w1 marshal n] by simp
  have c: "Write_loop marshal ?w2 [quote] n
             = finish_string marshal (?w2\<lparr>onString := False, stringBuf := stringBuf ?w2 @ [quote]\<rparr>) n"
    using marker_close [of ?w2 marshal n] by (simp only: Write_loop_single) simp
  have ab: "Write_loop marshal w (streamJSONPrefix @ c) n = (?w2, n, None)"
    using Write_loop_append_ok [OF a, of c] b by simp
  have "Write_loop marshal w ((streamJSONPrefix @ c) @ [quote]) n
          = finish_string marshal (?w2\<lparr>onString := False, stringBuf := stringBuf ?w2 @ [quote]\<rparr>) n"
    using Write_loop_append_ok [OF ab, of "[quote]"] c by simp
  moreover have "?w2\<lparr>onString := False, stringBuf := stringBuf ?w2 @ [quote]\<rparr> = dispatching w lit"
    by (cases w) (simp add: dispatching_def lit)
  ultimately show ?thesis using lit by simp
qed

lemma ordinary_loop:
  assumes rel: "reliable (Writer_w w)" and out: "\<not> onString w" and nc: "no_collision p"
  shows "\<exists>w' n'. Write_loop marshal w p n = (w', n', None)
           \<and> tracks w' (scan_end None False p)
           \<and> sunk (Writer_w w') @ held_back p = sunk (Writer_w w) @ p
           \<and> reliable (Writer_w w') \<and> Writer_m w' = Writer_m w"
proof -
  from nc have l: "list_all (\<lambda>l. \<not> prefix streamJSONPrefix l) (string_literals_from None False p)"
    by (simp add: no_collision_def string_literals_def)
  obtain w' n' where r: "Write_loop marshal w p n = (w', n', None)"
    and t: "tracks w' (scan_end None False p)"
    and s: "sunk (Writer_w w') @ pending w' = sunk (Writer_w w) @ pending w @ p"
    and r': "reliable (Writer_w w')" and m: "Writer_m w' = Writer_m w"
    using ordinary_run [OF rel tracks_outside [OF out] l, of marshal n] by blast
  have "pending w = []" using out by (simp add: pending_def)
  moreover have "pending w' = held_back p"
    using tracks_pending [OF t] by (simp add: held_back_def)
  ultimately have "sunk (Writer_w w') @ held_back p = sunk (Writer_w w) @ p"
    using s by simp
  with r t r' m show ?thesis by simp
qed

lemma unmarshal_marker:
  "json_Unmarshal_string (streamJSONPrefix @ r)
     = (case unquote r of None \<Rightarrow> Inl ErrSyntax | Some s \<Rightarrow> Inr (streamPrefix @ s))"
  by (simp add: json_Unmarshal_string_def streamJSONPrefix_def streamPrefix_def
      continuation_def EncodeRune_def char_of_eq_iff split: option.splits)

lemma finish_marker:
  assumes "marker_literal lit k"
  shows "finish_string marshal (dispatching w lit) n
           = (case streamValue marshal (dispatching w lit) k of (w', err) \<Rightarrow> (w', n, err))"
  using assms
  by (simp add: marker_literal_def finish_string_def dispatching_def streamPrefix_def)

lemma marker_dispatch:
  assumes out: "\<not> onString w" and ml: "marker_literal lit k"
  shows "Write_loop marshal w lit n
           = (case streamValue marshal (dispatching w lit) k of (w', err) \<Rightarrow> (w', n, err))"
  using marker_run [OF out, of lit marshal n] finish_marker [OF ml, of marshal w n] ml
  by (simp add: marker_literal_def)

lemma run_ValueFunc_reliable:
  "reliable s \<Longrightarrow> run_ValueFunc fn s = (s\<lparr>sunk := sunk s @ written fn\<rparr>, returned fn)"
proof (induction fn arbitrary: s)
  case (VReturn r)
  show ?case by simp
next
  case (VWrite p k)
  have "run_ValueFunc (k (length p, None)) (s\<lparr>sunk := sunk s @ p\<rparr>)
          = (s\<lparr>sunk := sunk s @ p\<rparr>\<lparr>sunk := sunk (s\<lparr>sunk := sunk s @ p\<rparr>) @ written (k (length p, None))\<rparr>,
             returned (k (length p, None)))"
    using VWrite.IH [of "k (length p, None)" "s\<lparr>sunk := sunk s @ p\<rparr>"] VWrite.prems
    by (simp add: rangeI)
  then show ?case using VWrite.prems by (simp add: io_Write_reliable)
qed

lemma dispatch_value:
  assumes out: "\<not> onString w" and ml: "marker_literal lit k"
    and reg: "Writer_m w k = Some v" and vf: "Value_f v = IsValueFunc fn"
    and rel: "reliable (Writer_w w)"
  shows "Write_loop marshal w lit n
           = ((dispatching w lit)\<lparr>Writer_w := (Writer_w w)\<lparr>sunk := sunk (Writer_w w) @ written fn\<rparr>\<rparr>,
              n, returned fn)"
  using marker_dispatch [OF out ml, of marshal n] reg vf run_ValueFunc_reliable [OF rel, of fn]
  by (simp add: streamValue_def dispatching_def)

lemma in_context:
  assumes rel: "reliable (Writer_w w)" and out: "\<not> onString w"
    and pre: "no_collision pre" and pend: "fst (scan_end None False pre) = None"
    and post: "no_collision post"
    and step: "\<And>w1 n1. reliable (Writer_w w1) \<Longrightarrow> \<not> onString w1 \<Longrightarrow> Writer_m w1 = Writer_m w \<Longrightarrow>
                 \<exists>w2. Write_loop marshal w1 lit n1 = (w2, n1, None) \<and> \<not> onString w2
                      \<and> reliable (Writer_w w2) \<and> sunk (Writer_w w2) = sunk (Writer_w w1) @ X"
  shows "\<exists>w' n. Write marshal w (pre @ lit @ post) = (w', n, None)
           \<and> sunk (Writer_w w') @ held_back post = sunk (Writer_w w) @ pre @ X @ post"
proof -
  obtain w1 n1 where a: "Write_loop marshal w pre 0 = (w1, n1, None)"
    and t1: "tracks w1 (scan_end None False pre)"
    and s1: "sunk (Writer_w w1) @ held_back pre = sunk (Writer_w w) @ pre"
    and r1: "reliable (Writer_w w1)" and m1: "Writer_m w1 = Writer_m w"
    using ordinary_loop [OF rel out pre, of marshal 0] by blast
  have o1: "\<not> onString w1" using t1 pend by (simp add: tracks_def)
  have h1: "held_back pre = []" using pend by (simp add: held_back_def)
  obtain w2 where b: "Write_loop marshal w1 lit n1 = (w2, n1, None)" and o2: "\<not> onString w2"
    and r2: "reliable (Writer_w w2)" and s2: "sunk (Writer_w w2) = sunk (Writer_w w1) @ X"
    using step [OF r1 o1 m1, of n1] by blast
  obtain w3 n3 where c: "Write_loop marshal w2 post n1 = (w3, n3, None)"
    and s3: "sunk (Writer_w w3) @ held_back post = sunk (Writer_w w2) @ post"
    using ordinary_loop [OF r2 o2 post, of marshal n1] by blast
  have ab: "Write_loop marshal w (pre @ lit) 0 = (w2, n1, None)"
    using Write_loop_append_ok [OF a, of lit] b by simp
  have "Write_loop marshal w ((pre @ lit) @ post) 0 = (w3, n3, None)"
    using Write_loop_append_ok [OF ab, of post] c by simp
  moreover have "sunk (Writer_w w3) @ held_back post = sunk (Writer_w w) @ pre @ X @ post"
    using s3 s2 s1 h1 by simp
  ultimately show ?thesis by (simp add: Write_def)
qed

lemma streamValue_m: "Writer_m (fst (streamValue marshal w k)) = Writer_m w"
  by (simp add: streamValue_def split: prod.splits option.splits Func.splits)

lemma finish_string_m: "Writer_m (fst (finish_string marshal w n)) = Writer_m w"
proof -
  have "Writer_m (fst (case streamValue marshal w k of (w', err) \<Rightarrow> (w', n, err))) = Writer_m w" for k
    using streamValue_m [of marshal w k] by (cases "streamValue marshal w k") simp
  then show ?thesis
    by (simp add: finish_string_def split: prod.splits sum.splits)
qed

lemma keep_byte_m: "Writer_m (fst (keep_byte w b n)) = Writer_m w"
  by (simp add: keep_byte_def Let_def split: prod.splits)

lemma track_escape_m: "Writer_m (track_escape w b) = Writer_m w"
  by (simp add: track_escape_def)

lemma outside_byte_m: "Writer_m (fst (outside_byte w b n)) = Writer_m w"
  by (simp add: outside_byte_def split: prod.splits option.splits)

lemma Write_m_unchanged_byte: "Writer_m (fst (Write_byte marshal w b n)) = Writer_m w"
proof (cases "onString w")
  case False
  then show ?thesis using outside_byte_m [of w b n] by (simp add: Write_byte_def)
next
  case True
  obtain w1 n1 e1 where k: "keep_byte (track_escape w b) b n = (w1, n1, e1)"
    by (cases "keep_byte (track_escape w b) b n") auto
  then have m1: "Writer_m w1 = Writer_m w"
    using keep_byte_m [of "track_escape w b" b n] track_escape_m [of w b] by simp
  show ?thesis
    using True k m1 finish_string_m [of marshal w1 n1]
    by (cases e1) (simp_all add: Write_byte_def)
qed

lemma Write_m_unchanged_loop: "Writer_m (fst (Write_loop marshal w p n)) = Writer_m w"
proof (induction p arbitrary: w n)
  case Nil
  show ?case by simp
next
  case (Cons b bs)
  obtain w1 n1 e1 where s: "Write_byte marshal w b n = (w1, n1, e1)"
    by (cases "Write_byte marshal w b n") auto
  then have "Writer_m w1 = Writer_m w" using Write_m_unchanged_byte [of marshal w b n] by simp
  with s Cons.IH [of w1 n1] show ?case by (cases e1) simp_all
qed

lemma WriteElement_reliable:
  assumes "reliable (ew_w ew)" and "marshal e = Inr jsn"
  shows "WriteElement marshal ew e
           = (\<lparr>ew_w = (ew_w ew)\<lparr>sunk := sunk (ew_w ew)
                                   @ (if following ew then [CHR '',''] else []) @ jsn\<rparr>,
               following = True\<rparr>, None)"
  using assms by (cases ew) (simp add: WriteElement_def io_Write_reliable)

lemma comma_join_Cons:
  "comma_join (x # xs) = x @ concat (map (\<lambda>y. CHR '','' # y) xs)"
  by (induction xs arbitrary: x) simp_all

lemma run_ArrayValueFunc_reliable:
  assumes "reliable (ew_w ew)" and "list_all (marshals marshal) (emitted marshal fn)"
  shows "run_ArrayValueFunc marshal fn ew
           = (\<lparr>ew_w = (ew_w ew)\<lparr>sunk := sunk (ew_w ew)
                 @ (if following ew
                    then concat (map (\<lambda>y. CHR '','' # y) (map (serialize marshal) (emitted marshal fn)))
                    else comma_join (map (serialize marshal) (emitted marshal fn)))\<rparr>,
               following = (following ew \<or> emitted marshal fn \<noteq> [])\<rparr>,
              areturned marshal fn)"
  using assms
proof (induction fn arbitrary: ew)
  case (AReturn r)
  show ?case by (cases ew) simp
next
  case (AWriteElement e k)
  from AWriteElement.prems(2) obtain jsn where j: "marshal e = Inr jsn"
    by (auto simp: marshals_def split: sum.splits)
  then have rep: "element_reply marshal e = None" and ser: "serialize marshal e = jsn"
    by (simp_all add: element_reply_def serialize_def)
  let ?ew1 = "\<lparr>ew_w = (ew_w ew)\<lparr>sunk := sunk (ew_w ew)
                                   @ (if following ew then [CHR '',''] else []) @ jsn\<rparr>,
               following = True\<rparr>"
  have w: "WriteElement marshal ew e = (?ew1, None)"
    using WriteElement_reliable [of ew marshal e jsn] AWriteElement.prems(1) j by simp
  have r1: "reliable (ew_w ?ew1)" using AWriteElement.prems(1) by simp
  have l1: "list_all (marshals marshal) (emitted marshal (k None))"
    using AWriteElement.prems(2) rep by simp
  note ih = AWriteElement.IH [of "k None" ?ew1, OF rangeI r1 l1]
  show ?case
    using w ih rep ser by (simp add: comma_join_Cons)
qed

lemma dispatch_array:
  assumes out: "\<not> onString w" and ml: "marker_literal lit k"
    and reg: "Writer_m w k = Some v" and af: "Value_f v = IsArrayValueFunc fn"
    and rel: "reliable (Writer_w w)"
    and all: "list_all (marshals marshal) (emitted marshal fn)"
    and ret: "areturned marshal fn = None"
  shows "Write_loop marshal w lit n
           = ((dispatching w lit)\<lparr>Writer_w := (Writer_w w)\<lparr>sunk := sunk (Writer_w w)
                 @ ''['' @ comma_join (map (serialize marshal) (emitted marshal fn)) @ '']''\<rparr>\<rparr>,
              n, None)"
proof -
  let ?d = "dispatching w lit"
  let ?js = "comma_join (map (serialize marshal) (emitted marshal fn))"
  let ?s1 = "(Writer_w w)\<lparr>sunk := sunk (Writer_w w) @ ''[''\<rparr>"
  let ?s2 = "(Writer_w w)\<lparr>sunk := sunk (Writer_w w) @ ''['' @ ?js\<rparr>"
  let ?s3 = "(Writer_w w)\<lparr>sunk := sunk (Writer_w w) @ ''['' @ ?js @ '']''\<rparr>"
  have sd: "Writer_w ?d = Writer_w w" and md: "Writer_m ?d = Writer_m w"
    by (simp_all add: dispatching_def)
  have r1: "reliable (ew_w \<lparr>ew_w = ?s1, following = False\<rparr>)" using rel by simp
  have run: "run_ArrayValueFunc marshal fn \<lparr>ew_w = ?s1, following = False\<rparr>
               = (\<lparr>ew_w = ?s2, following = (emitted marshal fn \<noteq> [])\<rparr>, None)"
    using run_ArrayValueFunc_reliable [OF r1 all] ret by simp
  have o: "io_Write (Writer_w w) ''['' = (?s1, 1, None)"
    using io_Write_reliable [OF rel, of "''[''"] by simp
  have r2: "reliable ?s2" using rel by simp
  have c: "io_Write ?s2 '']'' = (?s3, 1, None)"
    using io_Write_reliable [OF r2, of "'']''"] by simp
  have e: "ew_w \<lparr>ew_w = ?s2, following = (emitted marshal fn \<noteq> [])\<rparr> = ?s2" by simp
  have "streamValue marshal ?d k = (?d\<lparr>Writer_w := ?s3\<rparr>, None)"
    unfolding streamValue_def md sd reg option.case af Func.case o prod.case run e c ..
  then show ?thesis
    using marker_dispatch [OF out ml, of marshal n] by simp
qed

lemma example_writer_facts:
  "reliable (Writer_w example_writer)" "\<not> onString example_writer"
  "sunk (Writer_w example_writer) = []"
  "Writer_m example_writer ''$.Values''
     = Some \<lparr>Value_key = ''$.Values'', Value_f = IsValueFunc (write_once ''[1,2,3]'')\<rparr>"
  "Writer_m example_writer ''$.Numbers''
     = Some \<lparr>Value_key = ''$.Numbers'', Value_f = IsArrayValueFunc (emit_all [''0'', ''1'', ''2''])\<rparr>"
  "Writer_m example_writer ''$.Other'' = None"
  by (simp_all add: example_writer_def NewArrayValue_def NewValue_def newValue_def New_def
      reliable_buffer_sink Let_def del: emit_all.simps)
    (simp add: buffer_sink_def)

lemma marker_literal_Values: "marker_literal (marker ''$.Values'') ''$.Values''"
  by (simp add: marker_literal_def marker_def string_literal_def codec_unfold
      streamJSONPrefix_def streamPrefix_def)

lemma marker_literal_Numbers: "marker_literal (marker ''$.Numbers'') ''$.Numbers''"
  by (simp add: marker_literal_def marker_def string_literal_def codec_unfold
      streamJSONPrefix_def streamPrefix_def)

lemma marker_literal_Other: "marker_literal (marker ''$.Other'') ''$.Other''"
  by (simp add: marker_literal_def marker_def string_literal_def codec_unfold
      streamJSONPrefix_def streamPrefix_def)

lemma example_context:
  "no_collision (''{'' @ [quote] @ ''Values'' @ [quote] @ '':'')"
  "fst (scan_end None False (''{'' @ [quote] @ ''Values'' @ [quote] @ '':'')) = None"
  "no_collision ''}''" "held_back ''}'' = []"
  by (simp_all add: no_collision_def string_literals_def streamJSONPrefix_def held_back_def)

lemma emit_all_emitted:
  "list_all (marshals marshal) es \<Longrightarrow>
     emitted marshal (emit_all es) = es \<and> areturned marshal (emit_all es) = None"
  by (induction es) (auto simp: element_reply_def marshals_def split: sum.splits)

lemma marshals_raw: "list_all (marshals raw_marshal) es"
  by (induction es) (simp_all add: marshals_def raw_marshal_def)

lemma marker_literal_empty: "marker_literal (marker []) []"
  by (simp add: marker_literal_def marker_def string_literal_def codec_unfold
      streamJSONPrefix_def streamPrefix_def)

lemma empty_key_writer_facts:
  "reliable (Writer_w empty_key_writer)" "\<not> onString empty_key_writer"
  "sunk (Writer_w empty_key_writer) = []"
  "Writer_m empty_key_writer []
     = Some \<lparr>Value_key = [], Value_f = IsArrayValueFunc (emit_all [])\<rparr>"
  by (simp_all add: empty_key_writer_def NewArrayValue_def newValue_def New_def
      reliable_buffer_sink Let_def del: emit_all.simps)
    (simp add: buffer_sink_def)

section \<open>Failures\<close>


















lemma streamValue_dispatching:
  "streamValue marshal (dispatching w lit) k
     = (case streamValue marshal w k of (w', err) \<Rightarrow> (dispatching w' lit, err))"
  by (simp add: streamValue_def dispatching_def split: option.splits Func.splits prod.splits)


lemma Write_loop_Cons_fails:
  "Write_byte marshal w b n = (w2, n2, Some e) \<Longrightarrow> Write_loop marshal w (b # r) n = (w2, n2, Some e)"
  by simp











section \<open>The marker codec\<close>

lemma shift_mod: "(a::nat) < n \<Longrightarrow> (n * q + a) mod n = a"
  by simp

lemma lead2_mod: "192 \<le> (p::nat) \<Longrightarrow> p < 224 \<Longrightarrow> p mod 32 = p - 192"
  using shift_mod [of "p - 192" 32 6] by simp

lemma lead3_mod: "224 \<le> (p::nat) \<Longrightarrow> p < 240 \<Longrightarrow> p mod 16 = p - 224"
  using shift_mod [of "p - 224" 16 14] by simp

lemma lead4_mod: "240 \<le> (p::nat) \<Longrightarrow> p < 248 \<Longrightarrow> p mod 8 = p - 240"
  using shift_mod [of "p - 240" 8 30] by simp

lemma cont_mod: "128 \<le> (p::nat) \<Longrightarrow> p < 192 \<Longrightarrow> p mod 64 = p - 128"
  using shift_mod [of "p - 128" 64 2] by simp

lemma nest: "(x::nat) < 64 \<Longrightarrow> (y * 64 + x) div 64 = y \<and> (y * 64 + x) mod 64 = x"
  by simp

lemma split3:
  assumes b: "(b::nat) < 64" and c: "(c::nat) < 64"
  shows "(a * 4096 + b * 64 + c) div 4096 = a" "((a * 4096 + b * 64 + c) div 64) mod 64 = b"
    "(a * 4096 + b * 64 + c) mod 64 = c"
proof -
  let ?r = "a * 4096 + b * 64 + c"
  have e: "?r = (a * 64 + b) * 64 + c" by simp
  have d1: "?r div 64 = a * 64 + b" and m1: "?r mod 64 = c"
    using nest [OF c, of "a * 64 + b"] by (simp_all only: e)
  have d2: "(a * 64 + b) div 64 = a" and m2: "(a * 64 + b) mod 64 = b"
    using nest [OF b, of a] by simp_all
  have "?r div 4096 = ?r div 64 div 64" using div_mult2_eq [of ?r 64 64] by simp
  then show "?r div 4096 = a" by (simp only: d1 d2)
  show "(?r div 64) mod 64 = b" by (simp only: d1 m2)
  show "?r mod 64 = c" by (rule m1)
qed

lemma split4:
  assumes b: "(b::nat) < 64" and c: "(c::nat) < 64" and d: "(d::nat) < 64"
  shows "(a * 262144 + b * 4096 + c * 64 + d) div 262144 = a"
    "((a * 262144 + b * 4096 + c * 64 + d) div 4096) mod 64 = b"
    "((a * 262144 + b * 4096 + c * 64 + d) div 64) mod 64 = c"
    "(a * 262144 + b * 4096 + c * 64 + d) mod 64 = d"
proof -
  let ?r = "a * 262144 + b * 4096 + c * 64 + d"
  let ?q = "a * 4096 + b * 64 + c"
  have e: "?r = ?q * 64 + d" by simp
  have d1: "?r div 64 = ?q" and m1: "?r mod 64 = d"
    using nest [OF d, of ?q] by (simp_all only: e)
  have "?r div 4096 = ?r div 64 div 64" using div_mult2_eq [of ?r 64 64] by simp
  then have d2: "?r div 4096 = ?q div 64" by (simp only: d1)
  have q64: "?q div 64 = a * 64 + b"
  proof -
    have "?q = (a * 64 + b) * 64 + c" by simp
    then show ?thesis using nest [OF c, of "a * 64 + b"] by (simp only:)
  qed
  have "?r div 262144 = ?r div 64 div 4096" using div_mult2_eq [of ?r 64 4096] by simp
  then show "?r div 262144 = a" using split3(1) [OF b c, of a] by (simp only: d1)
  show "(?r div 4096) mod 64 = b"
    using nest [OF b, of a] by (simp only: d2 q64)
  show "(?r div 64) mod 64 = c" using split3(3) [OF b c, of a] by (simp only: d1)
  show "?r mod 64 = d" by (rule m1)
qed

lemma char_of_shift: "k \<le> (of_char c :: nat) \<Longrightarrow> char_of (k + (of_char c - k)) = c"
  by simp

lemma continuation_bounds:
  "continuation c \<Longrightarrow> 128 \<le> (of_char c :: nat) \<and> (of_char c :: nat) < 192
     \<and> (of_char c :: nat) - 128 < 64 \<and> c \<noteq> quote \<and> c \<noteq> backslash"
  by (auto simp: continuation_def)

text \<open>Encodings of two bytes.\<close>

lemma rune2:
  assumes l: "194 \<le> (of_char c :: nat)" "(of_char c :: nat) < 224" and c1: "continuation c1"
  shows "DecodeRune (c # c1 # ys) = ((of_char c - 192) * 64 + (of_char c1 - 128), 2)"
    and "EncodeRune ((of_char c - 192) * 64 + (of_char c1 - 128)) = [c, c1]"
    and "128 \<le> (of_char c - 192) * 64 + (of_char c1 - 128 :: nat)"
    and "(of_char c - 192) * 64 + (of_char c1 - 128 :: nat) \<le> 0x7FF"
proof -
  let ?a = "of_char c - 192 :: nat" and ?b = "of_char c1 - 128 :: nat"
  note cb = continuation_bounds [OF c1]
  have a: "2 \<le> ?a" "?a < 32" using l by simp_all
  have b: "?b < 64" using cb by simp
  have m0: "(of_char c :: nat) mod 32 = ?a" using lead2_mod [of "of_char c"] l by simp
  have m1: "(of_char c1 :: nat) mod 64 = ?b" using cont_mod [of "of_char c1"] cb by simp
  show "DecodeRune (c # c1 # ys) = (?a * 64 + ?b, 2)"
    using l cb by (simp add: Let_def m0 m1)
  show lo: "128 \<le> ?a * 64 + ?b" using a by simp
  show hi: "?a * 64 + ?b \<le> 0x7FF" using a b by simp
  have "\<not> ?a * 64 + ?b \<le> 0x7F" using lo by simp
  then show "EncodeRune (?a * 64 + ?b) = [c, c1]"
    using hi nest [OF b, of ?a] char_of_shift [of 192 c] char_of_shift [of 128 c1] l cb
    by (simp add: EncodeRune_def)
qed


text \<open>Encodings of three bytes: no surrogates, no overlong forms.\<close>

lemma rune3:
  assumes l: "224 \<le> (of_char c :: nat)" "(of_char c :: nat) < 240"
    and c1: "continuation c1" and c2: "continuation c2"
    and e0: "(of_char c :: nat) = 224 \<Longrightarrow> 160 \<le> (of_char c1 :: nat)"
    and ed: "(of_char c :: nat) = 237 \<Longrightarrow> (of_char c1 :: nat) \<le> 159"
  shows "DecodeRune (c # c1 # c2 # ys)
           = ((of_char c - 224) * 4096 + (of_char c1 - 128) * 64 + (of_char c2 - 128), 3)"
    and "EncodeRune ((of_char c - 224) * 4096 + (of_char c1 - 128) * 64 + (of_char c2 - 128))
           = [c, c1, c2]"
    and "128 \<le> (of_char c - 224) * 4096 + (of_char c1 - 128) * 64 + (of_char c2 - 128 :: nat)"
proof -
  let ?a = "of_char c - 224 :: nat" and ?b = "of_char c1 - 128 :: nat"
    and ?d = "of_char c2 - 128 :: nat"
  let ?r = "?a * 4096 + ?b * 64 + ?d"
  note cb1 = continuation_bounds [OF c1] and cb2 = continuation_bounds [OF c2]
  have a: "?a < 16" using l by simp
  have b: "?b < 64" using cb1 by simp
  have d: "?d < 64" using cb2 by simp
  have m0: "(of_char c :: nat) mod 16 = ?a" using lead3_mod [of "of_char c"] l by simp
  have m1: "(of_char c1 :: nat) mod 64 = ?b" using cont_mod [of "of_char c1"] cb1 by simp
  have m2: "(of_char c2 :: nat) mod 64 = ?d" using cont_mod [of "of_char c2"] cb2 by simp
  have lo1: "\<not> (of_char c1 :: nat) < (if (of_char c :: nat) = 224 then 160 else 128)"
    using e0 cb1 by auto
  have hi1: "\<not> (if (of_char c :: nat) = 237 then 159 else 191) < (of_char c1 :: nat)"
    using ed cb1 by auto
  show "DecodeRune (c # c1 # c2 # ys) = (?r, 3)"
    using l e0 ed cb1 c2 by (auto simp: Let_def m0 m1 m2)
  have lo: "0x800 \<le> ?r"
  proof (cases "?a = 0")
    case True
    then have "(of_char c :: nat) = 224" using l by simp
    then have "32 \<le> ?b" using e0 by simp
    then show ?thesis by simp
  next
    case False
    then have "1 \<le> ?a" by simp
    then have "4096 \<le> ?a * 4096" by simp
    then show ?thesis by simp
  qed
  then show "128 \<le> ?r" by simp
  have hi: "?r \<le> 0xFFFF" using a b d by simp
  have ns: "\<not> (0xD800 \<le> ?r \<and> ?r \<le> 0xDFFF)"
  proof (cases "?a < 13")
    case True
    then have "?a * 4096 \<le> 12 * 4096" by simp
    then have "?r < 0xD800" using b d by simp
    then show ?thesis by simp
  next
    case False
    show ?thesis
    proof (cases "?a = 13")
      case True
      then have "(of_char c :: nat) = 237" using l by simp
      then have "?b < 32" using ed cb1 by simp
      then have "?b * 64 + ?d < 2048" using d by simp
      then have "?r < 0xD800" using True by simp
      then show ?thesis by simp
    next
      case False
      with \<open>\<not> ?a < 13\<close> have "14 \<le> ?a" by simp
      then have "14 * 4096 \<le> ?a * 4096" by simp
      then have "0xDFFF < ?r" by simp
      then show ?thesis by simp
    qed
  qed
  have n1: "\<not> ?r \<le> 0x7F" "\<not> ?r \<le> 0x7FF" "\<not> 0x10FFFF < ?r" using lo hi by simp_all
  have enc: "EncodeRune ?r = [char_of (0xE0 + ?r div 4096), char_of (0x80 + (?r div 64) mod 64),
                              char_of (0x80 + ?r mod 64)]"
    using n1 ns hi unfolding EncodeRune_def by (simp only: if_False if_True simp_thms)
  show "EncodeRune ?r = [c, c1, c2]"
    unfolding enc split3 [OF b d]
    using char_of_shift [of 224 c] char_of_shift [of 128 c1] char_of_shift [of 128 c2] l cb1 cb2
    by simp
qed


text \<open>Encodings of four bytes, up to U+10FFFF.\<close>

lemma rune4:
  assumes l: "240 \<le> (of_char c :: nat)" "(of_char c :: nat) \<le> 244"
    and c1: "continuation c1" and c2: "continuation c2" and c3: "continuation c3"
    and f0: "(of_char c :: nat) = 240 \<Longrightarrow> 144 \<le> (of_char c1 :: nat)"
    and f4: "(of_char c :: nat) = 244 \<Longrightarrow> (of_char c1 :: nat) \<le> 143"
  shows "DecodeRune (c # c1 # c2 # c3 # ys)
           = ((of_char c - 240) * 262144 + (of_char c1 - 128) * 4096
                + (of_char c2 - 128) * 64 + (of_char c3 - 128), 4)"
    and "EncodeRune ((of_char c - 240) * 262144 + (of_char c1 - 128) * 4096
                + (of_char c2 - 128) * 64 + (of_char c3 - 128))
           = [c, c1, c2, c3]"
    and "128 \<le> (of_char c - 240) * 262144 + (of_char c1 - 128) * 4096
                + (of_char c2 - 128) * 64 + (of_char c3 - 128 :: nat)"
proof -
  let ?a = "of_char c - 240 :: nat" and ?b = "of_char c1 - 128 :: nat"
    and ?d = "of_char c2 - 128 :: nat" and ?e = "of_char c3 - 128 :: nat"
  let ?r = "?a * 262144 + ?b * 4096 + ?d * 64 + ?e"
  note cb1 = continuation_bounds [OF c1] and cb2 = continuation_bounds [OF c2]
    and cb3 = continuation_bounds [OF c3]
  have a: "?a \<le> 4" using l by simp
  have b: "?b < 64" using cb1 by simp
  have d: "?d < 64" using cb2 by simp
  have e: "?e < 64" using cb3 by simp
  have m0: "(of_char c :: nat) mod 8 = ?a" using lead4_mod [of "of_char c"] l by simp
  have m1: "(of_char c1 :: nat) mod 64 = ?b" using cont_mod [of "of_char c1"] cb1 by simp
  have m2: "(of_char c2 :: nat) mod 64 = ?d" using cont_mod [of "of_char c2"] cb2 by simp
  have m3: "(of_char c3 :: nat) mod 64 = ?e" using cont_mod [of "of_char c3"] cb3 by simp
  show "DecodeRune (c # c1 # c2 # c3 # ys) = (?r, 4)"
    using l f0 f4 cb1 c2 c3 by (auto simp: Let_def m0 m1 m2 m3)
  have lo: "0x10000 \<le> ?r"
  proof (cases "?a = 0")
    case True
    then have "(of_char c :: nat) = 240" using l by simp
    then have "16 \<le> ?b" using f0 by simp
    then have "16 * 4096 \<le> ?b * 4096" by simp
    then show ?thesis by simp
  next
    case False
    then have "1 \<le> ?a" by simp
    then have "262144 \<le> ?a * 262144" by simp
    then show ?thesis by simp
  qed
  then show "128 \<le> ?r" by simp
  have hi: "?r \<le> 0x10FFFF"
  proof (cases "?a = 4")
    case True
    then have "(of_char c :: nat) = 244" using l by simp
    then have "?b \<le> 15" using f4 cb1 by simp
    then have "?b * 4096 \<le> 15 * 4096" by simp
    then show ?thesis using True d e by simp
  next
    case False
    with a have "?a \<le> 3" by simp
    then have "?a * 262144 \<le> 3 * 262144" by simp
    moreover have "?b * 4096 \<le> 63 * 4096" using b by simp
    ultimately show ?thesis using d e by simp
  qed
  have n1: "\<not> ?r \<le> 0x7F" "\<not> ?r \<le> 0x7FF" "\<not> 0x10FFFF < ?r" "\<not> ?r \<le> 0xFFFF"
    "\<not> (0xD800 \<le> ?r \<and> ?r \<le> 0xDFFF)"
    using lo hi by simp_all
  have enc: "EncodeRune ?r = [char_of (0xF0 + ?r div 262144), char_of (0x80 + (?r div 4096) mod 64),
                              char_of (0x80 + (?r div 64) mod 64), char_of (0x80 + ?r mod 64)]"
    using n1 unfolding EncodeRune_def by (simp only: if_False if_True simp_thms)
  show "EncodeRune ?r = [c, c1, c2, c3]"
    unfolding enc split4 [OF b d e]
    using char_of_shift [of 240 c] char_of_shift [of 128 c1] char_of_shift [of 128 c2]
      char_of_shift [of 128 c3] l cb1 cb2 cb3
    by simp
qed


lemma DecodeRune_valid:
  assumes d: "DecodeRune (c # cs) = (r, n)" and v: "\<not> (r = RuneError \<and> n = 1)"
    and hi: "128 \<le> (of_char c :: nat)"
  shows "\<exists>bs. cs = bs @ drop (n - 1) cs \<and> length bs = n - 1 \<and> 2 \<le> n
           \<and> list_all continuation bs \<and> EncodeRune r = c # bs
           \<and> (\<forall>ys. DecodeRune (c # bs @ ys) = (r, n)) \<and> 128 \<le> r"
proof -
  let ?p = "of_char c :: nat"
  have bad: False if "DecodeRune (c # cs) = (RuneError, 1)"
    using that d v by simp
  have lead: "194 \<le> ?p" "?p \<le> 244"
  proof -
    have "\<not> (?p < 0xC2 \<or> 0xF4 < ?p)"
    proof
      assume "?p < 0xC2 \<or> 0xF4 < ?p"
      then have "DecodeRune (c # cs) = (RuneError, 1)" using hi by (auto simp: Let_def)
      then show False by (rule bad)
    qed
    then show "194 \<le> ?p" "?p \<le> 244" by simp_all
  qed
  obtain c1 cs1 where cs: "cs = c1 # cs1"
  proof (cases cs)
    case Nil
    then have "DecodeRune (c # cs) = (RuneError, 1)" using hi lead by (simp add: Let_def)
    then show ?thesis using bad by blast
  next
    case (Cons c1 cs1)
    then show ?thesis using that by blast
  qed
  let ?b1 = "of_char c1 :: nat"
  have second: "\<not> (?b1 < (if ?p = 0xE0 then 0xA0 else if ?p = 0xF0 then 0x90 else 0x80)
                    \<or> (if ?p = 0xED then 0x9F else if ?p = 0xF4 then 0x8F else 0xBF) < ?b1)"
  proof
    assume "?b1 < (if ?p = 0xE0 then 0xA0 else if ?p = 0xF0 then 0x90 else 0x80)
              \<or> (if ?p = 0xED then 0x9F else if ?p = 0xF4 then 0x8F else 0xBF) < ?b1"
    then have "DecodeRune (c # cs) = (RuneError, 1)"
      using hi lead cs by (simp add: Let_def)
    then show False by (rule bad)
  qed
  have c1: "continuation c1"
    using second by (auto simp: continuation_def split: if_splits)
  have e0: "?p = 224 \<Longrightarrow> 160 \<le> ?b1" and ed: "?p = 237 \<Longrightarrow> ?b1 \<le> 159"
    and f0: "?p = 240 \<Longrightarrow> 144 \<le> ?b1" and f4: "?p = 244 \<Longrightarrow> ?b1 \<le> 143"
    using second by (auto split: if_splits)
  show ?thesis
  proof (cases "?p < 224")
    case True
    note r2 = rune2 [OF lead(1) True c1]
    have "(r, n) = ((?p - 192) * 64 + (?b1 - 128), 2)"
      using d r2(1) [of cs1] cs by simp
    then have r: "r = (?p - 192) * 64 + (?b1 - 128)" and n: "n = 2" by simp_all
    have "cs = [c1] @ drop (n - 1) cs" using cs n by simp
    moreover have "length [c1] = n - 1" using n by simp
    moreover have "list_all continuation [c1]" using c1 by simp
    moreover have "EncodeRune r = c # [c1]" using r2(2) r by simp
    moreover have "\<forall>ys. DecodeRune (c # [c1] @ ys) = (r, n)" using r2(1) r n by simp
    moreover have "128 \<le> r" using r2(3) r by simp
    moreover have "2 \<le> n" using n by simp
    ultimately show ?thesis by blast
  next
    case False
    then have l3: "224 \<le> ?p" by simp
    obtain c2 cs2 where cs1: "cs1 = c2 # cs2"
    proof (cases cs1)
      case Nil
      then have "DecodeRune (c # cs) = (RuneError, 1)"
        using hi lead cs False second by (simp add: Let_def)
      then show ?thesis using bad by blast
    next
      case (Cons c2 cs2)
      then show ?thesis using that by blast
    qed
    have c2: "continuation c2"
    proof (rule ccontr)
      assume "\<not> continuation c2"
      then have "DecodeRune (c # cs) = (RuneError, 1)"
        using hi lead cs cs1 False second by (simp add: Let_def)
      then show False by (rule bad)
    qed
    show ?thesis
    proof (cases "?p < 240")
      case True
      note r3 = rune3 [OF l3 True c1 c2 e0 ed]
      have "(r, n) = ((?p - 224) * 4096 + (?b1 - 128) * 64 + (of_char c2 - 128), 3)"
        using d r3(1) [of cs2] cs cs1 by simp
      then have r: "r = (?p - 224) * 4096 + (?b1 - 128) * 64 + (of_char c2 - 128)"
        and n: "n = 3" by simp_all
      have "cs = [c1, c2] @ drop (n - 1) cs" using cs cs1 n by simp
      moreover have "length [c1, c2] = n - 1" using n by simp
      moreover have "list_all continuation [c1, c2]" using c1 c2 by simp
      moreover have "EncodeRune r = c # [c1, c2]" using r3(2) r by simp
      moreover have "\<forall>ys. DecodeRune (c # [c1, c2] @ ys) = (r, n)" using r3(1) r n by simp
      moreover have "128 \<le> r" using r3(3) r by simp
      moreover have "2 \<le> n" using n by simp
      ultimately show ?thesis by blast
    next
      case False
      then have l4: "240 \<le> ?p" by simp
      obtain c3 cs3 where cs2: "cs2 = c3 # cs3"
      proof (cases cs2)
        case Nil
        then have "DecodeRune (c # cs) = (RuneError, 1)"
          using hi lead cs cs1 l4 second c2 by (simp add: Let_def)
        then show ?thesis using bad by blast
      next
        case (Cons c3 cs3)
        then show ?thesis using that by blast
      qed
      have c3: "continuation c3"
      proof (rule ccontr)
        assume "\<not> continuation c3"
        then have "DecodeRune (c # cs) = (RuneError, 1)"
          using hi lead cs cs1 cs2 l4 second c2 by (simp add: Let_def)
        then show False by (rule bad)
      qed
      note r4 = rune4 [OF l4 lead(2) c1 c2 c3 f0 f4]
      have "(r, n) = ((?p - 240) * 262144 + (?b1 - 128) * 4096
                        + (of_char c2 - 128) * 64 + (of_char c3 - 128), 4)"
        using d r4(1) [of cs3] cs cs1 cs2 by simp
      then have r: "r = (?p - 240) * 262144 + (?b1 - 128) * 4096
                        + (of_char c2 - 128) * 64 + (of_char c3 - 128)"
        and n: "n = 4" by simp_all
      have "cs = [c1, c2, c3] @ drop (n - 1) cs" using cs cs1 cs2 n by simp
      moreover have "length [c1, c2, c3] = n - 1" using n by simp
      moreover have "list_all continuation [c1, c2, c3]" using c1 c2 c3 by simp
      moreover have "EncodeRune r = c # [c1, c2, c3]" using r4(2) r by simp
      moreover have "\<forall>ys. DecodeRune (c # [c1, c2, c3] @ ys) = (r, n)" using r4(1) r n by simp
      moreover have "128 \<le> r" using r4(3) r by simp
      moreover have "2 \<le> n" using n by simp
      ultimately show ?thesis by blast
    qed
  qed
qed

lemma hexval_hex: "n < 16 \<Longrightarrow> hexval (hex n) = Some n"
proof -
  have "list_all (\<lambda>n. hexval (hex n) = Some n) [0..<16]"
    by (simp add: hex_def hexval_def upt_rec)
  then show "n < 16 \<Longrightarrow> hexval (hex n) = Some n"
    by (simp add: list_all_iff)
qed

lemma unquote_u_escape:
  assumes g: "getu4 (backslash # CHR ''u'' # h1 # h2 # h3 # h4 # rest) = Some rr"
    and ns: "rr < 0xD800 \<or> 0xE000 \<le> rr"
  shows "unquote (backslash # CHR ''u'' # h1 # h2 # h3 # h4 # rest)
           = map_option ((@) (EncodeRune rr)) (unquote rest)"
  using ns by (auto simp add: g simp del: getu4.simps)

lemma getu4_digits:
  assumes "hexval h1 = Some x1" "hexval h2 = Some x2" "hexval h3 = Some x3" "hexval h4 = Some x4"
  shows "getu4 (backslash # CHR ''u'' # h1 # h2 # h3 # h4 # rest)
           = Some (((x1 * 16 + x2) * 16 + x3) * 16 + x4)"
  using assms by simp

lemma char_from_code: "(of_char c :: nat) = k \<Longrightarrow> c = char_of k"
  by (metis char_of_char)

lemma unquote_ascii:
  assumes a: "(of_char c :: nat) < 0x80"
  shows "\<exists>E. appendString (c # cs) = E @ appendString cs
           \<and> (\<forall>rest. unquote (E @ rest) = map_option ((#) c) (unquote rest))
           \<and> escaped_content E"
proof -
  let ?b = "of_char c :: nat"
  have cc: "char_of ?b = c" by simp
  consider (safe) "htmlSafe c"
    | (bq) "\<not> htmlSafe c" "c = backslash \<or> c = quote"
    | (short) "\<not> htmlSafe c" "c \<noteq> backslash" "c \<noteq> quote" "?b \<in> {0x08, 0x0C, 0x0A, 0x0D, 0x09}"
    | (long) "\<not> htmlSafe c" "c \<noteq> backslash" "c \<noteq> quote" "?b \<notin> {0x08, 0x0C, 0x0A, 0x0D, 0x09}"
    by blast
  then show ?thesis
  proof cases
    case safe
    then have "appendString (c # cs) = [c] @ appendString cs" using a by (simp add: Let_def)
    moreover have "unquote ([c] @ rest) = map_option ((#) c) (unquote rest)" for rest
      using safe a by (simp add: htmlSafe_def)
    moreover have "escaped_content [c]" using safe by (simp add: htmlSafe_def)
    ultimately show ?thesis by blast
  next
    case bq
    then have "appendString (c # cs) = [backslash, c] @ appendString cs"
      using a by (simp add: Let_def)
    moreover have "unquote ([backslash, c] @ rest) = map_option ((#) c) (unquote rest)" for rest
      using bq by auto
    moreover have "escaped_content [backslash, c]" by simp
    ultimately show ?thesis by blast
  next
    case short
    let ?l = "if ?b = 0x08 then CHR ''b'' else if ?b = 0x0C then CHR ''f''
              else if ?b = 0x0A then CHR ''n'' else if ?b = 0x0D then CHR ''r'' else CHR ''t''"
    have "appendString (c # cs) = [backslash, ?l] @ appendString cs"
      using a short by (auto simp: Let_def)
    moreover have "unquote ([backslash, ?l] @ rest) = map_option ((#) c) (unquote rest)" for rest
    proof -
      from short(4) consider "?b = 0x08" | "?b = 0x0C" | "?b = 0x0A" | "?b = 0x0D" | "?b = 0x09"
        by blast
      then have "c = CHR 0x08 \<and> ?b = 0x08 \<or> c = CHR 0x0C \<and> ?b = 0x0C
                 \<or> c = CHR 0x0A \<and> ?b = 0x0A \<or> c = CHR 0x0D \<and> ?b = 0x0D
                 \<or> c = CHR 0x09 \<and> ?b = 0x09"
      proof cases
        case 1 then show ?thesis using char_from_code [OF 1] by (simp add: char_of_eq_iff)
      next
        case 2 then show ?thesis using char_from_code [OF 2] by (simp add: char_of_eq_iff)
      next
        case 3 then show ?thesis using char_from_code [OF 3] by (simp add: char_of_eq_iff)
      next
        case 4 then show ?thesis using char_from_code [OF 4] by (simp add: char_of_eq_iff)
      next
        case 5 then show ?thesis using char_from_code [OF 5] by (simp add: char_of_eq_iff)
      qed
      then show ?thesis by auto
    qed
    moreover have "escaped_content [backslash, ?l]" by simp
    ultimately show ?thesis by blast
  next
    case long
    let ?E = "[backslash, CHR ''u'', CHR ''0'', CHR ''0'', hex (?b div 16), hex (?b mod 16)]"
    have "appendString (c # cs) = ?E @ appendString cs"
      using a long by (simp add: Let_def)
    moreover have "unquote (?E @ rest) = map_option ((#) c) (unquote rest)" for rest
    proof -
      have h0: "hexval (CHR ''0'') = Some 0" by (simp add: hexval_def)
      have h1: "hexval (hex (?b div 16)) = Some (?b div 16)" using a by (simp add: hexval_hex)
      have h2: "hexval (hex (?b mod 16)) = Some (?b mod 16)" by (simp add: hexval_hex)
      have v: "((0 * 16 + 0) * 16 + ?b div 16) * 16 + ?b mod 16 = ?b" by simp
      have g: "getu4 (backslash # CHR ''u'' # CHR ''0'' # CHR ''0'' # hex (?b div 16)
                        # hex (?b mod 16) # rest) = Some ?b"
        using getu4_digits [OF h0 h0 h1 h2, of rest] by (simp only: v)
      have ns: "?b < 0xD800 \<or> 0xE000 \<le> ?b" using a by simp
      have "EncodeRune ?b = [c]" using a cc by (simp add: EncodeRune_def)
      then show ?thesis
        using unquote_u_escape [OF g ns] by (cases "unquote rest") simp_all
    qed
    moreover have "escaped_content ?E"
    proof -
      have "hex n \<noteq> backslash \<and> hex n \<noteq> quote" if "n < 16" for n
      proof -
        have "list_all (\<lambda>n. hex n \<noteq> backslash \<and> hex n \<noteq> quote) [0..<16]"
          by (simp add: hex_def upt_rec)
        then show ?thesis using that by (simp add: list_all_iff)
      qed
      from this [of "?b div 16"] this [of "?b mod 16"] a show ?thesis by simp
    qed
    ultimately show ?thesis by blast
  qed
qed

lemma escaped_content_append:
  "escaped_content a \<Longrightarrow> escaped_content (a @ b) = escaped_content b"
proof (induction a rule: escaped_content.induct)
  case 1
  show ?case by simp
next
  case (2 c)
  then show ?case by (simp add: escaped_content_plain)
next
  case (3 c d cs)
  show ?case
  proof (cases "c = backslash")
    case True
    with "3.prems" have "escaped_content cs" by simp
    with "3.IH"(1) [OF True] True show ?thesis by simp
  next
    case False
    with "3.prems" have cq: "c \<noteq> quote" and ec: "escaped_content (d # cs)" by simp_all
    have "escaped_content ((c # d # cs) @ b) = escaped_content ((d # cs) @ b)"
      using False cq escaped_content_plain [of c "(d # cs) @ b"] by simp
    with "3.IH"(2) [OF False ec] show ?thesis by simp
  qed
qed

lemma escaped_content_plain_list:
  "list_all (\<lambda>x. x \<noteq> quote \<and> x \<noteq> backslash) xs \<Longrightarrow> escaped_content xs"
  by (induction xs) (simp_all add: escaped_content_plain)

lemma unquote_rune:
  assumes d: "DecodeRune (c # cs) = (r, n)" and v: "\<not> (r = RuneError \<and> n = 1)"
    and hi: "128 \<le> (of_char c :: nat)"
  shows "\<exists>E. appendString (c # cs) = E @ appendString (drop (n - 1) cs)
           \<and> (\<forall>rest. unquote (E @ rest) = map_option ((@) (c # take (n - 1) cs)) (unquote rest))
           \<and> escaped_content E"
proof -
  obtain bs where cs: "cs = bs @ drop (n - 1) cs" and len: "length bs = n - 1" and n2: "2 \<le> n"
    and cont: "list_all continuation bs" and enc: "EncodeRune r = c # bs"
    and dec: "\<forall>ys. DecodeRune (c # bs @ ys) = (r, n)" and r128: "128 \<le> r"
    using DecodeRune_valid [OF d v hi] by blast
  have tk: "take (n - 1) cs = bs"
  proof -
    have "take (n - 1) cs = take (n - 1) (bs @ drop (n - 1) cs)" using cs by simp
    then show ?thesis using len by simp
  qed
  have cne: "c \<noteq> quote" "c \<noteq> backslash" "\<not> (of_char c :: nat) < 0x20" "\<not> (of_char c :: nat) < 0x80"
    using hi by auto
  show ?thesis
  proof (cases "r = 0x2028 \<or> r = 0x2029")
    case False
    have a: "appendString (c # cs) = (c # bs) @ appendString (drop (n - 1) cs)"
      using d v False cne tk by (simp add: Let_def)
    have b: "unquote ((c # bs) @ rest) = map_option ((@) (c # take (n - 1) cs)) (unquote rest)" for rest
    proof -
      have "DecodeRune (c # bs @ rest) = (r, n)" using dec by blast
      moreover have "drop (n - 1) (bs @ rest) = rest" using len by simp
      ultimately show ?thesis using cne enc tk by simp
    qed
    have "list_all (\<lambda>x. x \<noteq> quote \<and> x \<noteq> backslash) (c # bs)"
      using cont cne continuation_bounds by (auto simp: list_all_iff)
    then have "escaped_content (c # bs)" by (rule escaped_content_plain_list)
    with a b show ?thesis by blast
  next
    case True
    let ?E = "[backslash, CHR ''u'', CHR ''2'', CHR ''0'', CHR ''2'', hex (r mod 16)]"
    have a: "appendString (c # cs) = ?E @ appendString (drop (n - 1) cs)"
      using d v True cne by (auto simp: Let_def RuneError_def)
    have hx: "hexval (CHR ''2'') = Some 2" "hexval (CHR ''0'') = Some 0"
      by (simp_all add: hexval_def)
    have hl: "hexval (hex (r mod 16)) = Some (r mod 16)" by (simp add: hexval_hex)
    have val: "((2 * 16 + 0) * 16 + 2) * 16 + r mod 16 = r" using True by auto
    have b: "unquote (?E @ rest) = map_option ((@) (c # take (n - 1) cs)) (unquote rest)" for rest
    proof -
      have g: "getu4 (backslash # CHR ''u'' # CHR ''2'' # CHR ''0'' # CHR ''2'' # hex (r mod 16) # rest)
                 = Some r"
        using getu4_digits [OF hx(1) hx(2) hx(1) hl, of rest] by (simp only: val)
      have ns: "r < 0xD800 \<or> 0xE000 \<le> r" using True by auto
      show ?thesis using unquote_u_escape [OF g ns] enc tk by simp
    qed
    have "hex (r mod 16) \<noteq> backslash \<and> hex (r mod 16) \<noteq> quote"
      using True by (auto simp: hex_def)
    then have "escaped_content ?E" by simp
    with a b show ?thesis by blast
  qed
qed

lemma unquote_appendString:
  "valid_utf8 k \<Longrightarrow> unquote (appendString k @ [quote]) = Some k"
proof (induction k rule: valid_utf8.induct)
  case 1
  show ?case by simp
next
  case (2 c cs)
  obtain r n where d: "DecodeRune (c # cs) = (r, n)" by (cases "DecodeRune (c # cs)") auto
  with "2.prems" have v: "\<not> (r = RuneError \<and> n = 1)" and rest: "valid_utf8 (drop (n - 1) cs)"
    by simp_all
  have ih: "unquote (appendString (drop (n - 1) cs) @ [quote]) = Some (drop (n - 1) cs)"
    using "2.IH" d v rest by (metis prod.inject)
  show ?case
  proof (cases "(of_char c :: nat) < 0x80")
    case True
    then have n1: "n = 1" using d by simp
    obtain E where a: "appendString (c # cs) = E @ appendString cs"
      and b: "\<forall>rest. unquote (E @ rest) = map_option ((#) c) (unquote rest)"
      using unquote_ascii [OF True, of cs] by blast
    have "unquote (appendString (c # cs) @ [quote]) = map_option ((#) c) (unquote (appendString cs @ [quote]))"
      using a b by simp
    then show ?thesis using ih n1 by simp
  next
    case False
    then have hi: "128 \<le> (of_char c :: nat)" by simp
    obtain E where a: "appendString (c # cs) = E @ appendString (drop (n - 1) cs)"
      and b: "\<forall>rest. unquote (E @ rest) = map_option ((@) (c # take (n - 1) cs)) (unquote rest)"
      using unquote_rune [OF d v hi] by blast
    have "unquote (appendString (c # cs) @ [quote])
            = map_option ((@) (c # take (n - 1) cs)) (unquote (appendString (drop (n - 1) cs) @ [quote]))"
      using a b by simp
    then show ?thesis using ih by simp
  qed
qed

lemma escaped_appendString: "escaped_content (appendString k)"
proof (induction k rule: length_induct)
  case (1 k)
  show ?case
  proof (cases k)
    case Nil
    then show ?thesis by simp
  next
    case (Cons c cs)
    obtain r n where d: "DecodeRune (c # cs) = (r, n)" by (cases "DecodeRune (c # cs)") auto
    have ih: "escaped_content (appendString (drop m cs))" for m
      using "1.IH" Cons by simp
    show ?thesis
    proof (cases "(of_char c :: nat) < 0x80")
      case True
      obtain E where a: "appendString (c # cs) = E @ appendString cs" and e: "escaped_content E"
        using unquote_ascii [OF True, of cs] by blast
      show ?thesis using a escaped_content_append [OF e, of "appendString cs"] ih [of 0] Cons by simp
    next
      case False
      then have hi: "128 \<le> (of_char c :: nat)" by simp
      show ?thesis
      proof (cases "r = RuneError \<and> n = 1")
        case True
        let ?E = "[backslash, CHR ''u'', CHR ''f'', CHR ''f'', CHR ''f'', CHR ''d'']"
        have a: "appendString (c # cs) = ?E @ appendString cs"
          using d True False by (simp add: Let_def)
        have e: "escaped_content ?E" by simp
        show ?thesis
          using a escaped_content_append [OF e, of "appendString cs"] ih [of 0] Cons by simp
      next
        case v: False
        obtain E where a: "appendString (c # cs) = E @ appendString (drop (n - 1) cs)"
          and e: "escaped_content E"
          using unquote_rune [OF d v hi] by blast
        show ?thesis using a escaped_content_append [OF e] ih [of "n - 1"] Cons by simp
      qed
    qed
  qed
qed

lemma MarshalJSON_shape:
  "MarshalJSON v = streamJSONPrefix @ appendString (Value_key v) @ [quote]"
  by (simp add: MarshalJSON_def json_Marshal_string_def streamPrefix_def streamJSONPrefix_def
      Let_def continuation_def htmlSafe_def)

lemma MarshalJSON_string_literal:
  "string_literal (MarshalJSON v) \<and> prefix streamJSONPrefix (MarshalJSON v)"
proof -
  let ?C = "[backslash, backslash, CHR 0xF0, CHR 0x9F, CHR 0x8E, CHR 0x8F] @ appendString (Value_key v)"
  have "escaped_content ?C"
    using escaped_appendString [of "Value_key v"] by (simp add: escaped_content_plain)
  moreover have "MarshalJSON v = quote # ?C @ [quote]"
    by (simp add: MarshalJSON_shape streamJSONPrefix_def)
  ultimately have "string_literal (MarshalJSON v)" using string_literal_iff by blast
  then show ?thesis by (simp add: MarshalJSON_shape)
qed

lemma marker_of_utf8_key:
  assumes "valid_utf8 (Value_key v)"
  shows "marker_literal (MarshalJSON v) (Value_key v)"
  using MarshalJSON_string_literal [of v] unquote_appendString [OF assms]
    unmarshal_marker [of "appendString (Value_key v) @ [quote]"]
  by (simp add: marker_literal_def MarshalJSON_shape)

text \<open>The two tests of \<^verbatim>\<open>MarshalJSON\<close> in the repository, on the model.\<close>

lemma MarshalJSON_tests:
  "marker ''testkey'' = streamJSONPrefix @ ''testkey'' @ [quote]"
  "marker ([backslash] @ ''test'' @ [quote] @ ''key'' @ [quote])
     = streamJSONPrefix @ [backslash, backslash] @ ''test'' @ [backslash, quote] @ ''key''
         @ [backslash, quote] @ [quote]"
  by (simp_all add: marker_def codec_unfold streamJSONPrefix_def streamPrefix_def Let_def)

text \<open>
  C6. The round trip holds for every key that is well-formed UTF-8 (lemma
  \<open>marker_of_utf8_key\<close>), the empty key and keys with quotes and backslashes among them.
  It fails for the key \<^verbatim>\<open>"\<backslash>xff"\<close>, which \<^verbatim>\<open>NewValue\<close> accepts: \<^verbatim>\<open>json.Marshal\<close> writes the byte as
  the escape of U+FFFD, the interceptor decodes the literal to the prefix and the three
  bytes of U+FFFD, and looks that key up. \<^verbatim>\<open>Write\<close> then fails with \<^verbatim>\<open>unexpected key\<close>, or
  runs the callback registered under U+FFFD.
\<close>

theorem invalid_utf8_key_not_recovered:
  "\<not> valid_utf8 [CHR 0xFF]
   \<and> NewValue (New buffer_sink :: string Writer) [CHR 0xFF] (write_once ''[1,2,3]'')
       = (invalid_key_writer,
          Inr \<lparr>Value_key = [CHR 0xFF], Value_f = IsValueFunc (write_once ''[1,2,3]'')\<rparr>)
   \<and> MarshalJSON (\<lparr>Value_key = [CHR 0xFF], Value_f = IsValueFunc (write_once ''[1,2,3]'')\<rparr>
                   :: string Value) = marker [CHR 0xFF]
   \<and> marker [CHR 0xFF] = streamJSONPrefix @ [backslash] @ ''ufffd'' @ [quote]
   \<and> json_Unmarshal_string (marker [CHR 0xFF])
       = Inr (streamPrefix @ [CHR 0xEF, CHR 0xBF, CHR 0xBD])
   \<and> \<not> marker_literal (marker [CHR 0xFF]) [CHR 0xFF]
   \<and> (\<exists>w'. Write raw_marshal invalid_key_writer (marker [CHR 0xFF])
              = (w', 0, Some (ErrUnexpectedKey [CHR 0xEF, CHR 0xBF, CHR 0xBD]))
          \<and> sunk (Writer_w w') = [])
   \<and> (\<exists>w'. Write raw_marshal clashing_writer (marker [CHR 0xFF]) = (w', 0, None)
          \<and> sunk (Writer_w w') = ''false'')"
  by (simp add: invalid_key_writer_def clashing_writer_def NewValue_def newValue_def New_def
      buffer_sink_def marker_def marker_literal_def write_once_def raw_marshal_def
      Write_unfold codec_unfold Let_def)

section \<open>Markers replaced\<close>

text \<open>
  C1. On a sink that never fails, from outside a string, with the key registered for a
  \<^verbatim>\<open>ValueFunc\<close>: \<^verbatim>\<open>Write\<close> of the marker literal of the key adds to the sink exactly the bytes
  the callback writes, returns what the callback returns, and is outside a string
  again. When the callback returns nil and the marker stands between bytes without
  markers, the first of them ending outside a string, the sink receives the input with
  the whole literal, quotes included, replaced by the bytes of the callback and nothing
  else. For a key that is well-formed UTF-8 the literal that \<^verbatim>\<open>MarshalJSON\<close> writes for
  the registered value is the marker literal of the key.
\<close>

theorem value_marker_replaced:
  assumes rel: "reliable (Writer_w w)" and out: "\<not> onString w"
    and ml: "marker_literal lit k"
    and reg: "Writer_m w k = Some v" and vf: "Value_f v = IsValueFunc fn"
  shows "(\<exists>w'. Write marshal w lit = (w', 0, returned fn) \<and> \<not> onString w'
            \<and> sunk (Writer_w w') = sunk (Writer_w w) @ written fn)
       \<and> (no_collision pre \<and> fst (scan_end None False pre) = None \<and> no_collision post
            \<and> returned fn = None \<longrightarrow>
          (\<exists>w' n. Write marshal w (pre @ lit @ post) = (w', n, None)
             \<and> sunk (Writer_w w') @ held_back post
                 = sunk (Writer_w w) @ pre @ written fn @ post))
       \<and> (valid_utf8 k \<and> Value_key v = k \<longrightarrow> marker_literal (MarshalJSON v) k)"
proof (intro conjI impI)
  assume "valid_utf8 k \<and> Value_key v = k"
  then show "marker_literal (MarshalJSON v) k"
    using marker_of_utf8_key [of v] by simp
next
  show "\<exists>w'. Write marshal w lit = (w', 0, returned fn) \<and> \<not> onString w'
            \<and> sunk (Writer_w w') = sunk (Writer_w w) @ written fn"
    using dispatch_value [OF out ml reg vf rel, of marshal 0]
    by (simp add: Write_def dispatching_def)
next
  assume a: "no_collision pre \<and> fst (scan_end None False pre) = None \<and> no_collision post
            \<and> returned fn = None"
  have step: "\<exists>w2. Write_loop marshal w1 lit n1 = (w2, n1, None) \<and> \<not> onString w2
                \<and> reliable (Writer_w w2) \<and> sunk (Writer_w w2) = sunk (Writer_w w1) @ written fn"
    if "reliable (Writer_w w1)" "\<not> onString w1" "Writer_m w1 = Writer_m w" for w1 n1
  proof -
    from that(3) reg have reg1: "Writer_m w1 k = Some v" by simp
    show ?thesis
      using dispatch_value [OF that(2) ml reg1 vf that(1), of marshal n1] a that(1)
      by (simp add: dispatching_def)
  qed
  show "\<exists>w' n. Write marshal w (pre @ lit @ post) = (w', n, None)
             \<and> sunk (Writer_w w') @ held_back post
                 = sunk (Writer_w w) @ pre @ written fn @ post"
  proof -
    from a have p1: "no_collision pre" and p2: "fst (scan_end None False pre) = None"
      and p3: "no_collision post" by simp_all
    show ?thesis using in_context [OF rel out p1 p2 p3 step] .
  qed
qed

text \<open>
  The example of the specification: the key \<^verbatim>\<open>$.Values\<close>, a callback that writes
  \<^verbatim>\<open>[1,2,3]\<close>, and the marker as \<^verbatim>\<open>MarshalJSON\<close> writes it, alone and in an object.
\<close>

theorem value_marker_replaced_witness:
  "reliable (Writer_w example_writer) \<and> \<not> onString example_writer
   \<and> marker_literal (marker ''$.Values'') ''$.Values''
   \<and> Writer_m example_writer ''$.Values''
        = Some \<lparr>Value_key = ''$.Values'', Value_f = IsValueFunc (write_once ''[1,2,3]'')\<rparr>
   \<and> no_collision (''{'' @ [quote] @ ''Values'' @ [quote] @ '':'')
   \<and> fst (scan_end None False (''{'' @ [quote] @ ''Values'' @ [quote] @ '':'')) = None
   \<and> no_collision ''}'' \<and> returned (write_once ''[1,2,3]'') = None
   \<and> valid_utf8 ''$.Values''
   \<and> marker_literal
        (MarshalJSON (\<lparr>Value_key = ''$.Values'', Value_f = IsValueFunc (write_once ''[1,2,3]'')\<rparr>
                        :: string Value))
        ''$.Values''
   \<and> (\<exists>w'. Write raw_marshal example_writer (marker ''$.Values'') = (w', 0, None)
          \<and> \<not> onString w' \<and> sunk (Writer_w w') = ''[1,2,3]'')
   \<and> (\<exists>w' n. Write raw_marshal example_writer
                 ((''{'' @ [quote] @ ''Values'' @ [quote] @ '':'') @ marker ''$.Values'' @ ''}'')
                = (w', n, None)
          \<and> sunk (Writer_w w') = (''{'' @ [quote] @ ''Values'' @ [quote] @ '':'') @ ''[1,2,3]'' @ ''}'')"
proof -
  have r: "returned (write_once ''[1,2,3]'') = None" and wr: "written (write_once ''[1,2,3]'') = ''[1,2,3]''"
    by (simp_all add: write_once_def)
  have vf: "Value_f \<lparr>Value_key = ''$.Values'', Value_f = IsValueFunc (write_once ''[1,2,3]'') :: string Func\<rparr>
              = IsValueFunc (write_once ''[1,2,3]'')"
    by simp
  note t = value_marker_replaced [OF example_writer_facts(1,2) marker_literal_Values
      example_writer_facts(4) vf, of raw_marshal
      "''{'' @ [quote] @ ''Values'' @ [quote] @ '':''" "''}''"]
  from t have a: "\<exists>w'. Write raw_marshal example_writer (marker ''$.Values'') = (w', 0, None)
          \<and> \<not> onString w' \<and> sunk (Writer_w w') = ''[1,2,3]''"
    unfolding r wr example_writer_facts(3) by simp
  from t example_context r have b: "\<exists>w' n. Write raw_marshal example_writer
                 ((''{'' @ [quote] @ ''Values'' @ [quote] @ '':'') @ marker ''$.Values'' @ ''}'')
                = (w', n, None)
          \<and> sunk (Writer_w w') @ held_back ''}''
              = sunk (Writer_w example_writer) @ (''{'' @ [quote] @ ''Values'' @ [quote] @ '':'')
                  @ written (write_once ''[1,2,3]'') @ ''}''"
    by blast
  then have b': "\<exists>w' n. Write raw_marshal example_writer
                 ((''{'' @ [quote] @ ''Values'' @ [quote] @ '':'') @ marker ''$.Values'' @ ''}'')
                = (w', n, None)
          \<and> sunk (Writer_w w') = (''{'' @ [quote] @ ''Values'' @ [quote] @ '':'') @ ''[1,2,3]'' @ ''}''"
    unfolding wr example_writer_facts(3) example_context(4) by simp
  have u: "valid_utf8 ''$.Values''" by (simp add: RuneError_def)
  from t u have ml: "marker_literal
        (MarshalJSON (\<lparr>Value_key = ''$.Values'', Value_f = IsValueFunc (write_once ''[1,2,3]'')\<rparr>
                        :: string Value))
        ''$.Values''"
    by simp
  show ?thesis
    using example_writer_facts(1,2,4) marker_literal_Values example_context(1,2,3) r u ml a b'
    by (intro conjI)
qed

text \<open>
  C2. On a sink that never fails, from outside a string, with the key registered for an
  \<^verbatim>\<open>ArrayValueFunc\<close> that returns nil and whose elements \<^verbatim>\<open>json.Marshal\<close> accepts: \<^verbatim>\<open>Write\<close>
  of the marker literal adds to the sink an opening bracket, the serializations of the
  elements emitted joined by single commas, and a closing bracket; with no element that
  is \<^verbatim>\<open>[]\<close>; the same holds with bytes without markers around the literal. The brackets
  come from \<^verbatim>\<open>streamValue\<close>: \<^verbatim>\<open>WriteElement\<close> itself writes a comma exactly when it is not
  the first call, then the serialization, and nothing else. For a key that is
  well-formed UTF-8 the literal that \<^verbatim>\<open>MarshalJSON\<close> writes is the marker literal of the key.
\<close>

theorem array_marker_replaced:
  assumes rel: "reliable (Writer_w w)" and out: "\<not> onString w"
    and ml: "marker_literal lit k"
    and reg: "Writer_m w k = Some v" and af: "Value_f v = IsArrayValueFunc fn"
    and all: "list_all (marshals marshal) (emitted marshal fn)"
    and ret: "areturned marshal fn = None"
  shows "(\<exists>w'. Write marshal w lit = (w', 0, None) \<and> \<not> onString w'
            \<and> sunk (Writer_w w')
                = sunk (Writer_w w) @ ''[''
                    @ comma_join (map (serialize marshal) (emitted marshal fn)) @ '']'')
       \<and> (emitted marshal fn = [] \<longrightarrow>
            (\<exists>w'. Write marshal w lit = (w', 0, None)
               \<and> sunk (Writer_w w') = sunk (Writer_w w) @ ''[]''))
       \<and> (no_collision pre \<and> fst (scan_end None False pre) = None \<and> no_collision post \<longrightarrow>
            (\<exists>w' n. Write marshal w (pre @ lit @ post) = (w', n, None)
               \<and> sunk (Writer_w w') @ held_back post
                   = sunk (Writer_w w) @ pre @ ''[''
                       @ comma_join (map (serialize marshal) (emitted marshal fn)) @ '']'' @ post))
       \<and> (reliable (ew_w ew) \<and> marshal e = Inr jsn \<longrightarrow>
            WriteElement marshal ew e
              = (\<lparr>ew_w = (ew_w ew)\<lparr>sunk := sunk (ew_w ew)
                                      @ (if following ew then '','' else []) @ jsn\<rparr>,
                  following = True\<rparr>, None))
       \<and> (valid_utf8 k \<and> Value_key v = k \<longrightarrow> marker_literal (MarshalJSON v) k)"
proof -
  have f: "valid_utf8 k \<and> Value_key v = k \<longrightarrow> marker_literal (MarshalJSON v) k"
    using marker_of_utf8_key [of v] by auto
  let ?X = "''['' @ comma_join (map (serialize marshal) (emitted marshal fn)) @ '']''"
  let ?w' = "(dispatching w lit)\<lparr>Writer_w := (Writer_w w)\<lparr>sunk := sunk (Writer_w w) @ ?X\<rparr>\<rparr>"
  have d: "Write marshal w lit = (?w', 0, None)"
    using dispatch_array [OF out ml reg af rel all ret, of 0] unfolding Write_def .
  have o': "\<not> onString ?w'" by (simp add: dispatching_def)
  have s': "sunk (Writer_w ?w') = sunk (Writer_w w) @ ?X" by simp
  have a: "\<exists>w'. Write marshal w lit = (w', 0, None) \<and> \<not> onString w'
            \<and> sunk (Writer_w w') = sunk (Writer_w w) @ ?X"
    using d o' s' by blast
  have b: "emitted marshal fn = [] \<longrightarrow>
            (\<exists>w'. Write marshal w lit = (w', 0, None)
               \<and> sunk (Writer_w w') = sunk (Writer_w w) @ ''[]'')"
  proof
    assume "emitted marshal fn = []"
    then have "sunk (Writer_w ?w') = sunk (Writer_w w) @ ''[]''" by simp
    with d show "\<exists>w'. Write marshal w lit = (w', 0, None)
               \<and> sunk (Writer_w w') = sunk (Writer_w w) @ ''[]''"
      by blast
  qed
  have step: "\<exists>w2. Write_loop marshal w1 lit n1 = (w2, n1, None) \<and> \<not> onString w2
                \<and> reliable (Writer_w w2) \<and> sunk (Writer_w w2) = sunk (Writer_w w1) @ ?X"
    if "reliable (Writer_w w1)" "\<not> onString w1" "Writer_m w1 = Writer_m w" for w1 n1
  proof -
    from that(3) reg have reg1: "Writer_m w1 k = Some v" by simp
    let ?w2 = "(dispatching w1 lit)\<lparr>Writer_w := (Writer_w w1)\<lparr>sunk := sunk (Writer_w w1) @ ?X\<rparr>\<rparr>"
    have "Write_loop marshal w1 lit n1 = (?w2, n1, None)"
      using dispatch_array [OF that(2) ml reg1 af that(1) all ret, of n1] .
    moreover have "\<not> onString ?w2" by (simp add: dispatching_def)
    moreover have "reliable (Writer_w ?w2)" using that(1) by simp
    moreover have "sunk (Writer_w ?w2) = sunk (Writer_w w1) @ ?X" by simp
    ultimately show ?thesis by blast
  qed
  have c: "no_collision pre \<and> fst (scan_end None False pre) = None \<and> no_collision post \<longrightarrow>
            (\<exists>w' n. Write marshal w (pre @ lit @ post) = (w', n, None)
               \<and> sunk (Writer_w w') @ held_back post
                   = sunk (Writer_w w) @ pre @ ?X @ post)"
  proof
    assume c: "no_collision pre \<and> fst (scan_end None False pre) = None \<and> no_collision post"
    then have p1: "no_collision pre" and p2: "fst (scan_end None False pre) = None"
      and p3: "no_collision post" by simp_all
    show "\<exists>w' n. Write marshal w (pre @ lit @ post) = (w', n, None)
               \<and> sunk (Writer_w w') @ held_back post
                   = sunk (Writer_w w) @ pre @ ?X @ post"
      using in_context [OF rel out p1 p2 p3 step] .
  qed
  have e: "reliable (ew_w ew) \<and> marshal e = Inr jsn \<longrightarrow>
            WriteElement marshal ew e
              = (\<lparr>ew_w = (ew_w ew)\<lparr>sunk := sunk (ew_w ew)
                                      @ (if following ew then '','' else []) @ jsn\<rparr>,
                  following = True\<rparr>, None)"
    using WriteElement_reliable [of ew marshal e jsn] by blast
  from c have c': "no_collision pre \<and> fst (scan_end None False pre) = None \<and> no_collision post \<longrightarrow>
            (\<exists>w' n. Write marshal w (pre @ lit @ post) = (w', n, None)
               \<and> sunk (Writer_w w') @ held_back post
                   = sunk (Writer_w w) @ pre @ ''[''
                       @ comma_join (map (serialize marshal) (emitted marshal fn)) @ '']'' @ post)"
    by (simp only: append_assoc)
  show ?thesis using a b c' e f by (intro conjI)
qed
text \<open>
  The loop of the tests on the elements 0, 1, 2; no element under the empty key; and
  \<^verbatim>\<open>WriteElement\<close> as a second call.
\<close>

theorem array_marker_replaced_witness:
  "reliable (Writer_w example_writer) \<and> \<not> onString example_writer
   \<and> marker_literal (marker ''$.Numbers'') ''$.Numbers''
   \<and> Writer_m example_writer ''$.Numbers''
        = Some \<lparr>Value_key = ''$.Numbers'', Value_f = IsArrayValueFunc (emit_all [''0'', ''1'', ''2''])\<rparr>
   \<and> list_all (marshals raw_marshal) (emitted raw_marshal (emit_all [''0'', ''1'', ''2'']))
   \<and> areturned raw_marshal (emit_all [''0'', ''1'', ''2'']) = None
   \<and> emitted raw_marshal (emit_all [''0'', ''1'', ''2'']) = [''0'', ''1'', ''2'']
   \<and> valid_utf8 ''$.Numbers''
   \<and> marker_literal
        (MarshalJSON (\<lparr>Value_key = ''$.Numbers'',
                        Value_f = IsArrayValueFunc (emit_all [''0'', ''1'', ''2''])\<rparr> :: string Value))
        ''$.Numbers''
   \<and> (\<exists>w'. Write raw_marshal example_writer (marker ''$.Numbers'') = (w', 0, None)
          \<and> \<not> onString w' \<and> sunk (Writer_w w') = ''[0,1,2]'')
   \<and> reliable (Writer_w empty_key_writer) \<and> \<not> onString empty_key_writer
   \<and> marker_literal (marker []) []
   \<and> Writer_m empty_key_writer [] = Some \<lparr>Value_key = [], Value_f = IsArrayValueFunc (emit_all [])\<rparr>
   \<and> emitted raw_marshal (emit_all ([] :: string list)) = []
   \<and> (\<exists>w'. Write raw_marshal empty_key_writer (marker []) = (w', 0, None)
          \<and> sunk (Writer_w w') = ''[]'')
   \<and> WriteElement raw_marshal \<lparr>ew_w = buffer_sink\<lparr>sunk := ''[0''\<rparr>, following = True\<rparr> ''1''
        = (\<lparr>ew_w = buffer_sink\<lparr>sunk := ''[0,1''\<rparr>, following = True\<rparr>, None)"
proof -
  let ?es = "[''0'', ''1'', ''2'']"
  have em: "emitted raw_marshal (emit_all ?es) = ?es"
    and ar: "areturned raw_marshal (emit_all ?es) = None"
    using emit_all_emitted [OF marshals_raw, of ?es] by blast+
  have all: "list_all (marshals raw_marshal) (emitted raw_marshal (emit_all ?es))"
    using marshals_raw [of "emitted raw_marshal (emit_all ?es)"] .
  have af: "Value_f \<lparr>Value_key = ''$.Numbers'', Value_f = IsArrayValueFunc (emit_all ?es) :: string Func\<rparr>
              = IsArrayValueFunc (emit_all ?es)"
    by simp
  note t = array_marker_replaced [OF example_writer_facts(1,2) marker_literal_Numbers
      example_writer_facts(5) af all ar]
  have js: "comma_join (map (serialize raw_marshal) ?es) = ''0,1,2''"
    by (simp add: serialize_def raw_marshal_def)
  from t have a: "\<exists>w'. Write raw_marshal example_writer (marker ''$.Numbers'') = (w', 0, None)
          \<and> \<not> onString w' \<and> sunk (Writer_w w') = ''[0,1,2]''"
    unfolding em js example_writer_facts(3) by simp
  have em0: "emitted raw_marshal (emit_all ([] :: string list)) = []"
    and ar0: "areturned raw_marshal (emit_all ([] :: string list)) = None"
    by simp_all
  have all0: "list_all (marshals raw_marshal) (emitted raw_marshal (emit_all ([] :: string list)))"
    by simp
  have af0: "Value_f \<lparr>Value_key = [], Value_f = IsArrayValueFunc (emit_all []) :: string Func\<rparr>
              = IsArrayValueFunc (emit_all [])"
    by simp
  note t0 = array_marker_replaced [OF empty_key_writer_facts(1,2) marker_literal_empty
      empty_key_writer_facts(4) af0 all0 ar0]
  from t0 em0 have b: "\<exists>w'. Write raw_marshal empty_key_writer (marker []) = (w', 0, None)
          \<and> sunk (Writer_w w') = ''[]''"
    unfolding empty_key_writer_facts(3) by simp
  have rel1: "reliable (ew_w \<lparr>ew_w = buffer_sink\<lparr>sunk := ''[0''\<rparr>, following = True\<rparr>)"
    using reliable_buffer_sink by simp
  have m1: "raw_marshal ''1'' = Inr ''1''" by (simp add: raw_marshal_def)
  from t [of _ _ "\<lparr>ew_w = buffer_sink\<lparr>sunk := ''[0''\<rparr>, following = True\<rparr>" "''1''" "''1''"] rel1 m1
  have c: "WriteElement raw_marshal \<lparr>ew_w = buffer_sink\<lparr>sunk := ''[0''\<rparr>, following = True\<rparr> ''1''
        = (\<lparr>ew_w = buffer_sink\<lparr>sunk := ''[0,1''\<rparr>, following = True\<rparr>, None)"
    by simp
  have u: "valid_utf8 ''$.Numbers''" by (simp add: RuneError_def)
  from t u have ml: "marker_literal
        (MarshalJSON (\<lparr>Value_key = ''$.Numbers'',
                        Value_f = IsArrayValueFunc (emit_all [''0'', ''1'', ''2''])\<rparr> :: string Value))
        ''$.Numbers''"
    by (simp del: emit_all.simps)
  show ?thesis
    using example_writer_facts(1,2,5) marker_literal_Numbers all ar em u ml a
      empty_key_writer_facts(1,2,4) marker_literal_empty em0 b c
    by (intro conjI)
qed
text \<open>
  C7. When the bytes before it have been written without error and end outside a string,
  a marker literal whose key is not registered makes \<^verbatim>\<open>Write\<close> return the error
  \<^verbatim>\<open>unexpected key\<close> of \<^verbatim>\<open>streamValue\<close>, whatever follows; the sink has received nothing of
  the literal.
\<close>

theorem unknown_key_fails:
  assumes pre: "Write marshal w pre = (w1, n1, None)" and out: "\<not> onString w1"
    and ml: "marker_literal lit k"
    and reg: "Writer_m w k = None"
  shows "Write marshal w (pre @ lit @ post)
           = (dispatching w1 lit, n1, Some (ErrUnexpectedKey k))
         \<and> Writer_w (dispatching w1 lit) = Writer_w w1"
proof -
  have m1: "Writer_m w1 = Writer_m w"
    using Write_m_unchanged_loop [of marshal w pre 0] pre by (simp add: Write_def)
  have a: "Write_loop marshal w pre 0 = (w1, n1, None)" using pre by (simp add: Write_def)
  have b: "Write_loop marshal w1 lit n1 = (dispatching w1 lit, n1, Some (ErrUnexpectedKey k))"
    using marker_dispatch [OF out ml, of marshal n1] reg m1
    by (simp add: streamValue_def dispatching_def)
  have "Write_loop marshal w (pre @ lit @ post) 0
          = (dispatching w1 lit, n1, Some (ErrUnexpectedKey k))"
    using Write_loop_append_ok [OF a, of "lit @ post"] b
    by (simp add: Write_loop_append)
  then show ?thesis by (simp add: Write_def dispatching_def)
qed
text \<open>The marker of the key \<^verbatim>\<open>$.Other\<close>, which the example writer does not know.\<close>

theorem unknown_key_fails_witness:
  "Write raw_marshal example_writer (''{'' @ [quote] @ ''Values'' @ [quote] @ '':'')
     = (example_writer\<lparr>Writer_w := buffer_sink\<lparr>sunk := ''{'' @ [quote] @ ''Values'' @ [quote] @ '':''\<rparr>,
                        streamState := stateNotValue, stringBuf := [quote] @ ''Values''\<rparr>, 9, None)
   \<and> marker_literal (marker ''$.Other'') ''$.Other''
   \<and> Writer_m example_writer ''$.Other'' = None
   \<and> (\<exists>w'. Write raw_marshal example_writer
              ((''{'' @ [quote] @ ''Values'' @ [quote] @ '':'') @ marker ''$.Other'' @ ''}'')
            = (w', 9, Some (ErrUnexpectedKey ''$.Other''))
          \<and> sunk (Writer_w w') = ''{'' @ [quote] @ ''Values'' @ [quote] @ '':'')"
proof -
  let ?w1 = "example_writer\<lparr>Writer_w := buffer_sink\<lparr>sunk := ''{'' @ [quote] @ ''Values'' @ [quote] @ '':''\<rparr>,
                        streamState := stateNotValue, stringBuf := [quote] @ ''Values''\<rparr>"
  have p: "Write raw_marshal example_writer (''{'' @ [quote] @ ''Values'' @ [quote] @ '':'')
             = (?w1, 9, None)"
    by (simp add: example_writer_def NewArrayValue_def NewValue_def newValue_def New_def
        buffer_sink_def Write_unfold del: emit_all.simps)
  have o: "\<not> onString ?w1" using example_writer_facts(2) by simp
  note t = unknown_key_fails [OF p o marker_literal_Other example_writer_facts(6), of "''}''"]
  then have "Write raw_marshal example_writer
              ((''{'' @ [quote] @ ''Values'' @ [quote] @ '':'') @ marker ''$.Other'' @ ''}'')
            = (dispatching ?w1 (marker ''$.Other''), 9, Some (ErrUnexpectedKey ''$.Other''))
          \<and> sunk (Writer_w (dispatching ?w1 (marker ''$.Other''))) = ''{'' @ [quote] @ ''Values'' @ [quote] @ '':''"
    by simp
  then have "\<exists>w'. Write raw_marshal example_writer
              ((''{'' @ [quote] @ ''Values'' @ [quote] @ '':'') @ marker ''$.Other'' @ ''}'')
            = (w', 9, Some (ErrUnexpectedKey ''$.Other''))
          \<and> sunk (Writer_w w') = ''{'' @ [quote] @ ''Values'' @ [quote] @ '':''"
    by blast
  with p marker_literal_Other example_writer_facts(6) show ?thesis by (intro conjI)
qed

section \<open>The count returned by \<^verbatim>\<open>Write\<close>\<close>

text \<open>
  C10. Three calls of \<^verbatim>\<open>Write\<close> that succeed with a count below the length of their input:
  the three bytes \<^verbatim>\<open>"ab\<close> of an unfinished string are buffered and the count is 0; of the
  ten bytes of \<^verbatim>\<open>"abcdefgh"\<close>, all at the sink afterwards, only the seven of the flushed
  buffer are counted, the three written live are not; a marker is replaced by the seven
  bytes its callback writes and the count is 0.
\<close>

theorem Write_count_below_length:
  "Write raw_marshal (New buffer_sink) ([quote] @ ''ab'')
     = (\<lparr>Writer_w = buffer_sink, Writer_m = Map.empty, onString = True, escaping = False,
         streamState = stateUndetermined, stringBuf = [quote] @ ''ab''\<rparr>, 0, None)
   \<and> (\<exists>w'. Write raw_marshal (New buffer_sink) ([quote] @ ''abcdefgh'' @ [quote]) = (w', 7, None)
          \<and> sunk (Writer_w w') = [quote] @ ''abcdefgh'' @ [quote]
          \<and> 7 < length ([quote] @ ''abcdefgh'' @ [quote]))
   \<and> (\<exists>w'. Write raw_marshal
               (fst (NewValue (New buffer_sink) ''$.Values''
                       (VWrite ''[1,2,3]'' (\<lambda>r. VReturn (snd r)))))
               (MarshalJSON \<lparr>Value_key = ''$.Values'',
                             Value_f = IsValueFunc (VWrite ''[1,2,3]'' (\<lambda>r. VReturn (snd r)))\<rparr>)
             = (w', 0, None)
          \<and> sunk (Writer_w w') = ''[1,2,3]'')"
  by (simp add: Write_unfold codec_unfold New_def NewValue_def newValue_def buffer_sink_def
      raw_marshal_def)

end
